theory Spec2Isabelle
  imports Complex_Main "HOL-Library.Code_Target_Nat"
begin

unbundle bit_operations_syntax

section \<open>Machine integers, errors and the random source\<close>

text \<open>
  The type \<open>ul\<close> of the source is \<open>unsigned long\<close> (64 bits). Values are natural
  numbers and the wrap-around of the arithmetic is written out. \<open>ULONG_MAX\<close> is the
  sentinel of the label and distance arrays.
\<close>

definition ULONG_MAX :: nat where
  "ULONG_MAX = 18446744073709551615"

definition ul_add :: "nat \<Rightarrow> nat \<Rightarrow> nat" where
  "ul_add a b = (a + b) mod 18446744073709551616"

definition ul_sub :: "nat \<Rightarrow> nat \<Rightarrow> nat" where
  "ul_sub a b = (a + 18446744073709551616 - b mod 18446744073709551616) mod 18446744073709551616"

text \<open>
  Every early exit of the source is a value. A driver that rejects its arguments
  (\<open>check_args\<close>) jumps to its label \<open>error\<close> before the locals which the
  cleanup there tests (\<open>s\<close>, \<open>q\<close>, \<open>visited\<close>, \<open>distances\<close>, \<open>labels\<close> and the
  arrays) have been assigned: the cleanup reads indeterminate pointers, which is
  \<open>UninitialisedCleanup\<close>. \<open>StackNotEmpty\<close>, \<open>PopFailed\<close> and
  \<open>PushFailed\<close> are the three error exits of the depth-first engines, \<open>DequeueFailed\<close>
  and \<open>EnqueueFailed\<close> those of the distance engine. \<open>OutOfBounds\<close> stands for an
  array access outside the allocated range and \<open>UseAfterFree\<close> for a driver that goes on
  with buffers which a failed helper has already released: these two and
  \<open>UninitialisedCleanup\<close> are undefined behaviour in C.
\<close>

datatype error = UninitialisedCleanup | StackNotEmpty | PopFailed | PushFailed
  | DequeueFailed | EnqueueFailed | OutOfBounds | UseAfterFree

text \<open>
  The global generator \<open>RNG\<close> is a fixed sequence of variates \<open>draws\<close> together with
  the number of variates consumed so far, which every state below carries as its
  position. A call of \<open>gsl_rng_uniform\<close> reads \<open>draws pos\<close> and advances the position.
\<close>

type_synonym rng = "nat \<Rightarrow> real"

definition uniform_range :: "rng \<Rightarrow> bool" where
  "uniform_range draws = (\<forall>k. 0 \<le> draws k \<and> draws k < 1)"

text \<open>
  Modelled from the spec: \<open>intpower\<close>, the integer power of the site indexer, is not
  part of the given sources; it computes in \<open>unsigned long\<close>.
\<close>

definition intpower :: "nat \<Rightarrow> nat \<Rightarrow> nat" where
  "intpower base exponent = (base ^ exponent) mod 18446744073709551616"

text \<open>
  Modelled from the spec: \<open>check_args\<close> is not part of the given sources. The
  dimension must not make \<open>2 ^ N\<close> overflow \<open>unsigned long\<close>, the number of
  realisations must be positive and \<open>p\<close> must lie in \<open>[0, 1]\<close>.
\<close>

definition check_args :: "nat \<Rightarrow> nat \<Rightarrow> real \<Rightarrow> bool" where
  "check_args N NR p = (N < 64 \<and> 0 < NR \<and> 0 \<le> p \<and> p \<le> 1)"

text \<open>
  A driver that goes on after a helper has taken its error exit works on released
  buffers.
\<close>

definition after_fault :: "error \<Rightarrow> error" where
  "after_fault e = (if e = OutOfBounds then OutOfBounds else UseAfterFree)"

text \<open>
  Modelled from the spec: \<open>reset_visited\<close> is not part of the given sources; it sets
  the first \<open>len\<close> entries of the visited array to false.
\<close>

definition reset_visited :: "bool list \<Rightarrow> nat \<Rightarrow> bool list" where
  "reset_visited visited len = replicate (min len (length visited)) False @ drop len visited"

section \<open>Bounded stack\<close>

text \<open>The struct \<open>stack\<close> of functions.h: buffer, capacity, top-of-stack count, graph order.\<close>

record stack =
  sites_s :: "nat list"
  length_s :: nat
  top_s :: nat
  NH_s :: nat

text \<open>
  Modelled from the spec: \<open>setup_stack\<close>, \<open>push\<close> and \<open>pop\<close> are declared in
  functions.h but their bodies are not part of the given sources. The capacity is fixed
  at creation to the graph order; \<open>push\<close> fails (returns 1) when the capacity would be
  exceeded and \<open>pop\<close> fails (sets the error flag to -1) on an empty stack.
\<close>

definition setup_stack :: "nat \<Rightarrow> stack" where
  "setup_stack NH = \<lparr>sites_s = replicate NH 0, length_s = NH, top_s = 0, NH_s = NH\<rparr>"

definition push :: "stack \<Rightarrow> nat \<Rightarrow> stack \<times> int" where
  "push s site =
     (if length_s s \<le> top_s s then (s, 1)
      else (s\<lparr>sites_s := (sites_s s)[top_s s := site], top_s := top_s s + 1\<rparr>, 0))"

definition pop :: "stack \<Rightarrow> int \<Rightarrow> nat \<times> stack \<times> int" where
  "pop s err =
     (if top_s s = 0 then (0, s, - 1)
      else (sites_s s ! (top_s s - 1), s\<lparr>top_s := top_s s - 1\<rparr>, err))"

section \<open>The depth-first engine \<open>DFS_hypercube\<close>\<close>

text \<open>
  The state of one call: the stack and the visited array (both owned by the caller and
  updated in place), the local \<open>size\<close>, the position of the random source and the
  caller's error flag \<open>*error\<close>.
\<close>

record dfs_state =
  d_stack :: stack
  d_visited :: "bool list"
  d_size :: nat
  d_pos :: nat
  d_error :: int

text \<open>
  The body of the \<open>for\<close> loop over the bit positions, and the loop. A variate is
  drawn only for an unvisited neighbour (the \<open>&&\<close> of the source short-circuits). A
  failed push sets \<open>*error\<close> and leaves the function.
\<close>

definition DFS_hypercube_neighbour :: "rng \<Rightarrow> real \<Rightarrow> nat \<Rightarrow> nat \<Rightarrow> dfs_state \<Rightarrow> error option \<times> dfs_state" where
  "DFS_hypercube_neighbour draws p u i st =
     (let v = u XOR 2 ^ i in
      if d_visited st ! v then (None, st)
      else
        let r = draws (d_pos st); st1 = st\<lparr>d_pos := d_pos st + 1\<rparr> in
        if r < p then
          (case push (d_stack st1) v of
             (s', rc) \<Rightarrow>
               if rc = 1 then (Some PushFailed, st1\<lparr>d_stack := s', d_error := - 1\<rparr>)
               else (None, st1\<lparr>d_stack := s'\<rparr>))
        else (None, st1))"

fun DFS_hypercube_for :: "rng \<Rightarrow> real \<Rightarrow> nat \<Rightarrow> nat list \<Rightarrow> dfs_state \<Rightarrow> error option \<times> dfs_state" where
  "DFS_hypercube_for draws p u [] st = (None, st)"
| "DFS_hypercube_for draws p u (i # is) st =
     (case DFS_hypercube_neighbour draws p u i st of
        (Some e, st') \<Rightarrow> (Some e, st')
      | (None, st') \<Rightarrow> DFS_hypercube_for draws p u is st')"

lemma DFS_hypercube_for_rule:
  assumes "P st"
    and "\<And>i st st'. P st \<Longrightarrow> i \<in> set is \<Longrightarrow>
           DFS_hypercube_neighbour draws p u i st = (None, st') \<Longrightarrow> P st'"
    and "\<And>i st e st'. P st \<Longrightarrow> i \<in> set is \<Longrightarrow>
           DFS_hypercube_neighbour draws p u i st = (Some e, st') \<Longrightarrow> Q (Some e, st')"
    and "\<And>st. P st \<Longrightarrow> Q (None, st)"
  shows "Q (DFS_hypercube_for draws p u is st)"
  using assms
proof (induction "is" arbitrary: st)
  case Nil
  then show ?case by simp
next
  case (Cons i "is")
  obtain r st' where n: "DFS_hypercube_neighbour draws p u i st = (r, st')"
    by (cases "DFS_hypercube_neighbour draws p u i st")
  show ?case
  proof (cases r)
    case None
    with n have "P st'" using Cons.prems(2) [of st i st'] Cons.prems(1) by simp
    have "Q (DFS_hypercube_for draws p u is st')"
    proof (rule Cons.IH [OF \<open>P st'\<close>])
      fix j s s'
      assume "P s" "j \<in> set is" "DFS_hypercube_neighbour draws p u j s = (None, s')"
      then show "P s'" using Cons.prems(2) [of s j s'] by simp
    next
      fix j s e s'
      assume "P s" "j \<in> set is" "DFS_hypercube_neighbour draws p u j s = (Some e, s')"
      then show "Q (Some e, s')" using Cons.prems(3) [of s j e s'] by simp
    next
      fix s
      assume "P s"
      then show "Q (None, s)" by (rule Cons.prems(4))
    qed
    with n None show ?thesis by simp
  next
    case (Some e)
    with n have "Q (Some e, st')" using Cons.prems(3) [of st i e st'] Cons.prems(1) by simp
    with n Some show ?thesis by simp
  qed
qed

text \<open>
  One pass through the body of the \<open>while\<close> loop: pop, leave on a pop error, skip a
  site that is already visited, otherwise visit it and scan its neighbours.
\<close>

definition DFS_hypercube_body :: "rng \<Rightarrow> real \<Rightarrow> nat \<Rightarrow> dfs_state \<Rightarrow> error option \<times> dfs_state" where
  "DFS_hypercube_body draws p N st =
     (case pop (d_stack st) (d_error st) of
        (u, s1, e1) \<Rightarrow>
          let st1 = st\<lparr>d_stack := s1, d_error := e1\<rparr> in
          if e1 = - 1 then (Some PopFailed, st1)
          else if length (d_visited st1) \<le> u then (Some OutOfBounds, st1)
          else if d_visited st1 ! u then (None, st1)
          else DFS_hypercube_for draws p u [0..<N]
                 (st1\<lparr>d_visited := (d_visited st1)[u := True], d_size := ul_add (d_size st1) 1\<rparr>))"

definition unvisited :: "bool list \<Rightarrow> nat" where
  "unvisited visited = length (filter Not visited)"

lemma unvisited_update:
  "u < length xs \<Longrightarrow> \<not> xs ! u \<Longrightarrow> Suc (unvisited (xs[u := True])) = unvisited xs"
  unfolding unvisited_def
proof (induction xs arbitrary: u)
  case Nil
  then show ?case by simp
next
  case (Cons x xs)
  then show ?case by (cases u) auto
qed

lemma DFS_hypercube_neighbour_visited:
  "DFS_hypercube_neighbour draws p u i st = (r, st') \<Longrightarrow> d_visited st' = d_visited st"
  by (auto simp: DFS_hypercube_neighbour_def Let_def split: if_splits prod.splits)

lemma DFS_hypercube_for_visited:
  assumes "DFS_hypercube_for draws p u is st = (r, st')"
  shows "d_visited st' = d_visited st"
proof -
  have "d_visited (snd (DFS_hypercube_for draws p u is st)) = d_visited st"
    by (rule DFS_hypercube_for_rule [where P = "\<lambda>s. d_visited s = d_visited st"])
       (auto dest: DFS_hypercube_neighbour_visited)
  with assms show ?thesis by simp
qed

lemma DFS_hypercube_body_decreases:
  assumes "DFS_hypercube_body draws p N st = (None, st')"
    and "0 < top_s (d_stack st)"
  shows "unvisited (d_visited st') < unvisited (d_visited st)
       \<or> (unvisited (d_visited st') = unvisited (d_visited st)
          \<and> top_s (d_stack st') < top_s (d_stack st))"
  using assms unvisited_update [of "sites_s (d_stack st) ! (top_s (d_stack st) - 1)" "d_visited st"]
  by (auto simp: DFS_hypercube_body_def pop_def Let_def
      split: if_splits dest!: DFS_hypercube_for_visited)

function DFS_hypercube_while :: "rng \<Rightarrow> real \<Rightarrow> nat \<Rightarrow> dfs_state \<Rightarrow> error option \<times> dfs_state" where
  "DFS_hypercube_while draws p N st =
     (if 0 < top_s (d_stack st) then
        (case DFS_hypercube_body draws p N st of
           (Some e, st') \<Rightarrow> (Some e, st')
         | (None, st') \<Rightarrow> DFS_hypercube_while draws p N st')
      else (None, st))"
  by pat_completeness auto
termination
proof (relation "measures [\<lambda>(draws, p, N, st). unvisited (d_visited st),
                          \<lambda>(draws, p, N, st). top_s (d_stack st)]", goal_cases)
  case 1
  show ?case by simp
next
  case (2 draws p N st x x1)
  then have "DFS_hypercube_body draws p N st = (None, x1)" by simp
  from DFS_hypercube_body_decreases [OF this] 2(1)
  show ?case by auto
qed

declare DFS_hypercube_while.simps [simp del]

text \<open>
  \<open>DFS_hypercube\<close>: the reentrancy guard, the unchecked push of the start site, the
  loop. The first component of the result is the error exit taken (the function then
  returns 0 with \<open>*error = -1\<close>) or the returned size.
\<close>

definition DFS_hypercube ::
  "rng \<Rightarrow> stack \<Rightarrow> bool list \<Rightarrow> real \<Rightarrow> nat \<Rightarrow> nat \<Rightarrow> int \<Rightarrow> nat \<Rightarrow> (error + nat) \<times> dfs_state" where
  "DFS_hypercube draws s visited p N start_state err pos =
     (let st = \<lparr>d_stack = s, d_visited = visited, d_size = 0, d_pos = pos, d_error = err\<rparr> in
      if top_s s \<noteq> 0 then (Inl StackNotEmpty, st\<lparr>d_error := - 1\<rparr>)
      else
        (case DFS_hypercube_while draws p N (st\<lparr>d_stack := fst (push s start_state)\<rparr>) of
           (Some e, st') \<Rightarrow> (Inl e, st')
         | (None, st') \<Rightarrow> (Inr (d_size st'), st')))"

definition returned :: "error + nat \<Rightarrow> nat" where
  "returned r = (case r of Inl e \<Rightarrow> 0 | Inr n \<Rightarrow> n)"

section \<open>The cluster-growth engine \<open>grow_H_cluster\<close>\<close>

text \<open>
  The adjacency matrix is a NumPy array of C ints indexed by \<open>PyArray_GETPTR2\<close>: a list
  of rows. \<open>array_set\<close> is one store through such a pointer.
\<close>

type_synonym matrix = "int list list"

definition array_set :: "matrix \<Rightarrow> nat \<Rightarrow> nat \<Rightarrow> int \<Rightarrow> matrix" where
  "array_set M i j c = M[i := (M ! i)[j := c]]"

definition zeros :: "nat \<Rightarrow> matrix" where
  "zeros n = replicate n (replicate n 0)"

text \<open>
  The state of one call of \<open>grow_H_cluster\<close>: what \<open>DFS_hypercube\<close> has, with the
  size behind a pointer, the matrix and the label array (\<open>None\<close> is the \<open>NULL\<close> that
  a caller passes when it does not label).
\<close>

record grow_state =
  g_stack :: stack
  g_visited :: "bool list"
  g_size :: nat
  g_array :: matrix
  g_labels :: "nat list option"
  g_error_flag :: int
  g_pos :: nat

text \<open>
  The body of the \<open>for\<close> loop and the loop: an unvisited neighbour costs one variate;
  the decision is stored at \<open>[u][v]\<close> and at \<open>[v][u]\<close>. The push comes before the
  two stores, so a failed push leaves the matrix as it was.
\<close>

definition grow_H_cluster_neighbour :: "rng \<Rightarrow> real \<Rightarrow> nat \<Rightarrow> nat \<Rightarrow> grow_state \<Rightarrow> error option \<times> grow_state" where
  "grow_H_cluster_neighbour draws p u i st =
     (let v = u XOR 2 ^ i in
      if g_visited st ! v then (None, st)
      else
        let r = draws (g_pos st); st1 = st\<lparr>g_pos := g_pos st + 1\<rparr> in
        if r < p then
          (case push (g_stack st1) v of
             (s', rc) \<Rightarrow>
               if rc = 1 then (Some PushFailed, st1\<lparr>g_stack := s'\<rparr>)
               else (None, st1\<lparr>g_stack := s',
                               g_array := array_set (array_set (g_array st1) u v 1) v u 1\<rparr>))
        else (None, st1\<lparr>g_array := array_set (array_set (g_array st1) u v 0) v u 0\<rparr>))"

fun grow_H_cluster_for :: "rng \<Rightarrow> real \<Rightarrow> nat \<Rightarrow> nat list \<Rightarrow> grow_state \<Rightarrow> error option \<times> grow_state" where
  "grow_H_cluster_for draws p u [] st = (None, st)"
| "grow_H_cluster_for draws p u (i # is) st =
     (case grow_H_cluster_neighbour draws p u i st of
        (Some e, st') \<Rightarrow> (Some e, st')
      | (None, st') \<Rightarrow> grow_H_cluster_for draws p u is st')"

lemma grow_H_cluster_for_rule:
  assumes "P st"
    and "\<And>i st st'. P st \<Longrightarrow> i \<in> set is \<Longrightarrow>
           grow_H_cluster_neighbour draws p u i st = (None, st') \<Longrightarrow> P st'"
    and "\<And>i st e st'. P st \<Longrightarrow> i \<in> set is \<Longrightarrow>
           grow_H_cluster_neighbour draws p u i st = (Some e, st') \<Longrightarrow> Q (Some e, st')"
    and "\<And>st. P st \<Longrightarrow> Q (None, st)"
  shows "Q (grow_H_cluster_for draws p u is st)"
  using assms
proof (induction "is" arbitrary: st)
  case Nil
  then show ?case by simp
next
  case (Cons i "is")
  obtain r st' where n: "grow_H_cluster_neighbour draws p u i st = (r, st')"
    by (cases "grow_H_cluster_neighbour draws p u i st")
  show ?case
  proof (cases r)
    case None
    with n have "P st'" using Cons.prems(2) [of st i st'] Cons.prems(1) by simp
    have "Q (grow_H_cluster_for draws p u is st')"
    proof (rule Cons.IH [OF \<open>P st'\<close>])
      fix j s s'
      assume "P s" "j \<in> set is" "grow_H_cluster_neighbour draws p u j s = (None, s')"
      then show "P s'" using Cons.prems(2) [of s j s'] by simp
    next
      fix j s e s'
      assume "P s" "j \<in> set is" "grow_H_cluster_neighbour draws p u j s = (Some e, s')"
      then show "Q (Some e, s')" using Cons.prems(3) [of s j e s'] by simp
    next
      fix s
      assume "P s"
      then show "Q (None, s)" by (rule Cons.prems(4))
    qed
    with n None show ?thesis by simp
  next
    case (Some e)
    with n have "Q (Some e, st')" using Cons.prems(3) [of st i e st'] Cons.prems(1) by simp
    with n Some show ?thesis by simp
  qed
qed

definition grow_H_cluster_body :: "rng \<Rightarrow> real \<Rightarrow> nat \<Rightarrow> nat \<Rightarrow> grow_state \<Rightarrow> error option \<times> grow_state" where
  "grow_H_cluster_body draws p N cluster_index st =
     (case pop (g_stack st) (g_error_flag st) of
        (u, s1, e1) \<Rightarrow>
          let st1 = st\<lparr>g_stack := s1, g_error_flag := e1\<rparr> in
          if e1 = - 1 then (Some PopFailed, st1)
          else if length (g_visited st1) \<le> u then (Some OutOfBounds, st1)
          else if g_visited st1 ! u then (None, st1)
          else grow_H_cluster_for draws p u [0..<N]
                 (st1\<lparr>g_visited := (g_visited st1)[u := True],
                      g_labels := map_option (\<lambda>l. l[u := cluster_index]) (g_labels st1),
                      g_size := ul_add (g_size st1) 1\<rparr>))"

lemma grow_H_cluster_neighbour_visited:
  "grow_H_cluster_neighbour draws p u i st = (r, st') \<Longrightarrow> g_visited st' = g_visited st"
  by (auto simp: grow_H_cluster_neighbour_def Let_def split: if_splits prod.splits)

lemma grow_H_cluster_for_visited:
  assumes "grow_H_cluster_for draws p u is st = (r, st')"
  shows "g_visited st' = g_visited st"
proof -
  have "g_visited (snd (grow_H_cluster_for draws p u is st)) = g_visited st"
    by (rule grow_H_cluster_for_rule [where P = "\<lambda>s. g_visited s = g_visited st"])
       (auto dest: grow_H_cluster_neighbour_visited)
  with assms show ?thesis by simp
qed

lemma grow_H_cluster_body_decreases:
  assumes "grow_H_cluster_body draws p N ci st = (None, st')"
    and "0 < top_s (g_stack st)"
  shows "unvisited (g_visited st') < unvisited (g_visited st)
       \<or> (unvisited (g_visited st') = unvisited (g_visited st)
          \<and> top_s (g_stack st') < top_s (g_stack st))"
  using assms unvisited_update [of "sites_s (g_stack st) ! (top_s (g_stack st) - 1)" "g_visited st"]
  by (auto simp: grow_H_cluster_body_def pop_def Let_def
      split: if_splits dest!: grow_H_cluster_for_visited)

function grow_H_cluster_while :: "rng \<Rightarrow> real \<Rightarrow> nat \<Rightarrow> nat \<Rightarrow> grow_state \<Rightarrow> error option \<times> grow_state" where
  "grow_H_cluster_while draws p N cluster_index st =
     (if 0 < top_s (g_stack st) then
        (case grow_H_cluster_body draws p N cluster_index st of
           (Some e, st') \<Rightarrow> (Some e, st')
         | (None, st') \<Rightarrow> grow_H_cluster_while draws p N cluster_index st')
      else (None, st))"
  by pat_completeness auto
termination
proof (relation "measures [\<lambda>(draws, p, N, ci, st). unvisited (g_visited st),
                          \<lambda>(draws, p, N, ci, st). top_s (g_stack st)]", goal_cases)
  case 1
  show ?case by simp
next
  case (2 draws p N ci st x x1)
  then have "grow_H_cluster_body draws p N ci st = (None, x1)" by simp
  from grow_H_cluster_body_decreases [OF this] 2(1)
  show ?case by auto
qed

declare grow_H_cluster_while.simps [simp del]

text \<open>
  \<open>grow_H_cluster\<close>. Every error exit goes to the label \<open>error\<close>, which releases the
  matrix, the stack and the visited array and returns: the first component \<open>Some e\<close>
  says that this has happened. The guard raises the Python exception only; the argument
  \<open>error_flag\<close> is written by \<open>pop\<close> alone.
\<close>

definition grow_H_cluster ::
  "rng \<Rightarrow> nat \<Rightarrow> real \<Rightarrow> nat \<Rightarrow> stack \<Rightarrow> nat \<Rightarrow> matrix \<Rightarrow> bool list \<Rightarrow> int \<Rightarrow> nat \<Rightarrow> nat list option \<Rightarrow> nat
     \<Rightarrow> error option \<times> grow_state" where
  "grow_H_cluster draws N p size0 s start_state numpy_array visited error_flag cluster_index labels pos =
     (let st = \<lparr>g_stack = s, g_visited = visited, g_size = size0, g_array = numpy_array,
                g_labels = labels, g_error_flag = error_flag, g_pos = pos\<rparr> in
      if top_s s \<noteq> 0 then (Some StackNotEmpty, st)
      else grow_H_cluster_while draws p N cluster_index (st\<lparr>g_stack := fst (push s start_state)\<rparr>))"

section \<open>Bounded queue\<close>

text \<open>
  The struct \<open>queue\<close> of functions.h. Modelled from the spec: \<open>setup_queue\<close>,
  \<open>enqueue\<close>, \<open>dequeue\<close> and \<open>empty\<close> are declared in functions.h but their bodies
  are not part of the given sources. The queue owns a fixed circular buffer, a logical
  length and a read and a write cursor; the capacity is the size of the buffer, fixed at
  creation; \<open>enqueue\<close> signals an overflow and \<open>dequeue\<close> an underflow through the
  error argument.
\<close>

record queue =
  sites_q :: "nat list"
  writeIdx :: nat
  readIdx :: nat
  length_q :: nat

definition setup_queue :: "nat \<Rightarrow> queue" where
  "setup_queue len = \<lparr>sites_q = replicate len 0, writeIdx = 0, readIdx = 0, length_q = 0\<rparr>"

definition enqueue :: "queue \<Rightarrow> nat \<Rightarrow> int \<Rightarrow> queue \<times> int" where
  "enqueue q item err =
     (if length (sites_q q) \<le> length_q q then (q, 1)
      else (q\<lparr>sites_q := (sites_q q)[writeIdx q := item],
               writeIdx := (writeIdx q + 1) mod length (sites_q q),
               length_q := length_q q + 1\<rparr>, err))"

definition dequeue :: "queue \<Rightarrow> int \<Rightarrow> nat \<times> queue \<times> int" where
  "dequeue q err =
     (if length_q q = 0 then (0, q, 1)
      else (sites_q q ! readIdx q,
            q\<lparr>readIdx := (readIdx q + 1) mod length (sites_q q), length_q := length_q q - 1\<rparr>,
            err))"

definition empty_q :: "queue \<Rightarrow> bool" where
  "empty_q q = (length_q q = 0)"

section \<open>The distance engine \<open>dijkstra\<close>\<close>

record dijkstra_state =
  j_queue :: queue
  j_visited :: "bool list"
  j_distances :: "nat list"
  j_number_visited :: nat
  j_labels :: "nat list option"
  j_err :: int
  j_pos :: nat

text \<open>
  The body of the \<open>for\<close> loop and the loop: an unvisited neighbour costs one variate;
  when the edge is kept and the candidate \<open>distances[u] + 1\<close> is strictly below \<open>distances[v]\<close>, the neighbour is
  enqueued and the candidate is stored.
\<close>

definition dijkstra_neighbour :: "rng \<Rightarrow> real \<Rightarrow> nat \<Rightarrow> nat \<Rightarrow> dijkstra_state \<Rightarrow> error option \<times> dijkstra_state" where
  "dijkstra_neighbour draws p u i st =
     (let v = u XOR 2 ^ i in
      if j_visited st ! v then (None, st)
      else
        let r = draws (j_pos st); st1 = st\<lparr>j_pos := j_pos st + 1\<rparr> in
        if r < p then
          (if length (j_distances st1) \<le> v then (Some OutOfBounds, st1)
           else
             let old_cost = j_distances st1 ! v;
                 new_cost = ul_add (j_distances st1 ! u) 1 in
             if new_cost < old_cost then
               (case enqueue (j_queue st1) v (j_err st1) of
                  (q', e') \<Rightarrow>
                    if e' \<noteq> 0 then (Some EnqueueFailed, st1\<lparr>j_queue := q', j_err := e'\<rparr>)
                    else (None, st1\<lparr>j_queue := q', j_err := e',
                                    j_distances := (j_distances st1)[v := new_cost]\<rparr>))
             else (None, st1))
        else (None, st1))"

fun dijkstra_for :: "rng \<Rightarrow> real \<Rightarrow> nat \<Rightarrow> nat list \<Rightarrow> dijkstra_state \<Rightarrow> error option \<times> dijkstra_state" where
  "dijkstra_for draws p u [] st = (None, st)"
| "dijkstra_for draws p u (i # is) st =
     (case dijkstra_neighbour draws p u i st of
        (Some e, st') \<Rightarrow> (Some e, st')
      | (None, st') \<Rightarrow> dijkstra_for draws p u is st')"

lemma dijkstra_for_rule:
  assumes "P st"
    and "\<And>i st st'. P st \<Longrightarrow> i \<in> set is \<Longrightarrow>
           dijkstra_neighbour draws p u i st = (None, st') \<Longrightarrow> P st'"
    and "\<And>i st e st'. P st \<Longrightarrow> i \<in> set is \<Longrightarrow>
           dijkstra_neighbour draws p u i st = (Some e, st') \<Longrightarrow> Q (Some e, st')"
    and "\<And>st. P st \<Longrightarrow> Q (None, st)"
  shows "Q (dijkstra_for draws p u is st)"
  using assms
proof (induction "is" arbitrary: st)
  case Nil
  then show ?case by simp
next
  case (Cons i "is")
  obtain r st' where n: "dijkstra_neighbour draws p u i st = (r, st')"
    by (cases "dijkstra_neighbour draws p u i st")
  show ?case
  proof (cases r)
    case None
    with n have "P st'" using Cons.prems(2) [of st i st'] Cons.prems(1) by simp
    have "Q (dijkstra_for draws p u is st')"
    proof (rule Cons.IH [OF \<open>P st'\<close>])
      fix j s s'
      assume "P s" "j \<in> set is" "dijkstra_neighbour draws p u j s = (None, s')"
      then show "P s'" using Cons.prems(2) [of s j s'] by simp
    next
      fix j s e s'
      assume "P s" "j \<in> set is" "dijkstra_neighbour draws p u j s = (Some e, s')"
      then show "Q (Some e, s')" using Cons.prems(3) [of s j e s'] by simp
    next
      fix s
      assume "P s"
      then show "Q (None, s)" by (rule Cons.prems(4))
    qed
    with n None show ?thesis by simp
  next
    case (Some e)
    with n have "Q (Some e, st')" using Cons.prems(3) [of st i e st'] Cons.prems(1) by simp
    with n Some show ?thesis by simp
  qed
qed

definition dijkstra_body :: "rng \<Rightarrow> real \<Rightarrow> nat \<Rightarrow> nat \<Rightarrow> dijkstra_state \<Rightarrow> error option \<times> dijkstra_state" where
  "dijkstra_body draws p N cluster_index st =
     (case dequeue (j_queue st) (j_err st) of
        (u, q1, e1) \<Rightarrow>
          let st1 = st\<lparr>j_queue := q1, j_err := e1\<rparr> in
          if e1 \<noteq> 0 then (Some DequeueFailed, st1)
          else
            let st2 = st1\<lparr>j_number_visited := ul_add (j_number_visited st1) 1\<rparr> in
            if length (j_visited st2) \<le> u then (Some OutOfBounds, st2)
            else dijkstra_for draws p u [0..<N]
                   (st2\<lparr>j_visited := (j_visited st2)[u := True],
                        j_labels := map_option (\<lambda>l. l[u := cluster_index]) (j_labels st2)\<rparr>))"

lemma sum_list_update_less:
  fixes xs :: "nat list"
  assumes "v < length xs" "c < xs ! v"
  shows "sum_list (xs[v := c]) < sum_list xs"
proof -
  from assms(1) have "xs ! v \<le> sum_list xs"
    by (simp add: member_le_sum_list)
  with assms show ?thesis by (simp add: sum_list_update)
qed

lemma dijkstra_neighbour_measure:
  assumes "dijkstra_neighbour draws p u i st = (None, st')"
  shows "sum_list (j_distances st') < sum_list (j_distances st)
     \<or> (j_distances st' = j_distances st \<and> j_queue st' = j_queue st)"
  using assms
  by (auto simp: dijkstra_neighbour_def Let_def sum_list_update_less split: if_splits prod.splits)

lemma dijkstra_for_measure:
  assumes "dijkstra_for draws p u is st = (None, st')"
  shows "sum_list (j_distances st') < sum_list (j_distances st)
     \<or> (j_distances st' = j_distances st \<and> j_queue st' = j_queue st)"
proof -
  have "case dijkstra_for draws p u is st of (r, s') \<Rightarrow> r = None \<longrightarrow>
          sum_list (j_distances s') < sum_list (j_distances st)
          \<or> (j_distances s' = j_distances st \<and> j_queue s' = j_queue st)"
  proof (rule dijkstra_for_rule [where
        P = "\<lambda>s'. sum_list (j_distances s') < sum_list (j_distances st)
                  \<or> (j_distances s' = j_distances st \<and> j_queue s' = j_queue st)"], goal_cases)
    case 1
    show ?case by simp
  next
    case (2 i s1 s2)
    from dijkstra_neighbour_measure [OF 2(3)] 2(1) show ?case by auto
  next
    case (3 i s1 e s2)
    then show ?case by simp
  next
    case (4 s1)
    then show ?case by simp
  qed
  with assms show ?thesis by simp
qed

lemma dijkstra_body_decreases:
  assumes "dijkstra_body draws p N ci st = (None, st')"
    and "\<not> empty_q (j_queue st)"
  shows "sum_list (j_distances st') < sum_list (j_distances st)
       \<or> (sum_list (j_distances st') = sum_list (j_distances st)
          \<and> length_q (j_queue st') < length_q (j_queue st))"
  using assms
  by (auto simp: dijkstra_body_def dequeue_def empty_q_def Let_def
      split: if_splits dest!: dijkstra_for_measure)

function dijkstra_while :: "rng \<Rightarrow> real \<Rightarrow> nat \<Rightarrow> nat \<Rightarrow> dijkstra_state \<Rightarrow> error option \<times> dijkstra_state" where
  "dijkstra_while draws p N cluster_index st =
     (if \<not> empty_q (j_queue st) then
        (case dijkstra_body draws p N cluster_index st of
           (Some e, st') \<Rightarrow> (Some e, st')
         | (None, st') \<Rightarrow> dijkstra_while draws p N cluster_index st')
      else (None, st))"
  by pat_completeness auto
termination
proof (relation "measures [\<lambda>(draws, p, N, ci, st). sum_list (j_distances st),
                          \<lambda>(draws, p, N, ci, st). length_q (j_queue st)]", goal_cases)
  case 1
  show ?case by simp
next
  case (2 draws p N ci st x x1)
  then have "dijkstra_body draws p N ci st = (None, x1)" by simp
  from dijkstra_body_decreases [OF this] 2(1)
  show ?case by auto
qed

declare dijkstra_while.simps [simp del]

text \<open>
  \<open>dijkstra\<close>: the local \<open>err\<close> starts at 0, the enqueue of the start site is not
  checked. Every error exit releases the distances, the queue and the visited array and
  returns.
\<close>

definition dijkstra ::
  "rng \<Rightarrow> queue \<Rightarrow> nat \<Rightarrow> real \<Rightarrow> nat \<Rightarrow> bool list \<Rightarrow> nat list \<Rightarrow> nat \<Rightarrow> nat \<Rightarrow> nat list option \<Rightarrow> nat
     \<Rightarrow> error option \<times> dijkstra_state" where
  "dijkstra draws q N p start_site visited distances number_visited cluster_index labels pos =
     (case enqueue q start_site 0 of
        (q1, e1) \<Rightarrow>
          dijkstra_while draws p N cluster_index
            \<lparr>j_queue = q1, j_visited = visited, j_distances = distances,
             j_number_visited = number_visited, j_labels = labels, j_err = e1, j_pos = pos\<rparr>)"

section \<open>Drivers\<close>

text \<open>
  The drivers are the functions the host calls. Argument parsing and the packaging of
  the result as a NumPy array are outside; a driver starts at \<open>check_args\<close> and ends
  with the C array or matrix it hands over. The generator is read from position 0.
\<close>

subsection \<open>\<open>hypercube_clusters\<close>\<close>

fun hypercube_clusters_loop ::
  "rng \<Rightarrow> nat \<Rightarrow> real \<Rightarrow> nat \<Rightarrow> nat \<Rightarrow> stack \<Rightarrow> bool list \<Rightarrow> nat list \<Rightarrow> int \<Rightarrow> nat \<Rightarrow> error + nat list" where
  "hypercube_clusters_loop draws N p NH 0 s visited out error_flag pos = Inr out"
| "hypercube_clusters_loop draws N p NH (Suc n) s visited out error_flag pos =
     (case DFS_hypercube draws s (reset_visited visited NH) p N 0 error_flag pos of
        (r, st) \<Rightarrow>
          (case r of
             Inl e \<Rightarrow> Inl e
           | Inr size1 \<Rightarrow>
               if d_error st = - 1 then Inl PopFailed
               else hypercube_clusters_loop draws N p NH n (d_stack st) (d_visited st)
                      (out @ [size1]) (d_error st) (d_pos st)))"

definition hypercube_clusters :: "rng \<Rightarrow> nat \<Rightarrow> nat \<Rightarrow> real \<Rightarrow> error + nat list" where
  "hypercube_clusters draws N NR p =
     (if \<not> check_args N NR p then Inl UninitialisedCleanup
      else
        let NH = intpower 2 N in
        hypercube_clusters_loop draws N p NH NR (setup_stack NH) (replicate NH False) [] 0 0)"

subsection \<open>\<open>hypercube_H\<close>\<close>

fun hypercube_H_row :: "rng \<Rightarrow> real \<Rightarrow> nat \<Rightarrow> nat list \<Rightarrow> matrix \<times> nat \<Rightarrow> matrix \<times> nat" where
  "hypercube_H_row draws p row [] (M, pos) = (M, pos)"
| "hypercube_H_row draws p row (i # is) (M, pos) =
     (let col = row XOR 2 ^ i in
      if draws pos < p
      then hypercube_H_row draws p row is (array_set (array_set M row col 1) col row 1, pos + 1)
      else hypercube_H_row draws p row is (array_set (array_set M row col 0) col row 0, pos + 1))"

fun hypercube_H_rows :: "rng \<Rightarrow> real \<Rightarrow> nat \<Rightarrow> nat list \<Rightarrow> matrix \<times> nat \<Rightarrow> matrix \<times> nat" where
  "hypercube_H_rows draws p N [] (M, pos) = (M, pos)"
| "hypercube_H_rows draws p N (row # rows) (M, pos) =
     hypercube_H_rows draws p N rows (hypercube_H_row draws p row [0..<N] (M, pos))"

definition hypercube_H :: "rng \<Rightarrow> nat \<Rightarrow> real \<Rightarrow> error + matrix" where
  "hypercube_H draws N p =
     (if \<not> check_args N 1 p then Inl UninitialisedCleanup
      else
        let NH = intpower 2 N in
        Inr (fst (hypercube_H_rows draws p N [0..<NH] (zeros NH, 0))))"

subsection \<open>\<open>hypercube_H_SC\<close>\<close>

definition hypercube_H_SC :: "rng \<Rightarrow> nat \<Rightarrow> real \<Rightarrow> error + matrix \<times> nat" where
  "hypercube_H_SC draws N p =
     (if \<not> check_args N 1 p then Inl UninitialisedCleanup
      else
        let NH = intpower 2 N;
            numpy_array = zeros NH;
            s = setup_stack NH;
            visited = reset_visited (replicate NH False) NH
        in
        (case grow_H_cluster draws N p 0 s 0 numpy_array visited 0 0 None 0 of
           (Some e, st) \<Rightarrow> Inl (after_fault e)
         | (None, st) \<Rightarrow> Inr (g_array st, g_size st)))"

subsection \<open>\<open>hypercube_H_LC\<close>\<close>

text \<open>
  The locals of the enumeration loop. The flag \<open>early_exit\<close> of the loop is \<open>True\<close>
  in the source: with \<open>False\<close> the \<open>break\<close> is taken out, which is the exhaustive
  enumeration of all clusters that the specification compares the driver with.
\<close>

record hlc_state =
  h_stack :: stack
  h_visited :: "bool list"
  h_array :: matrix
  h_labels :: "nat list"
  h_largest_cluster_index :: nat
  h_largest_cluster_size :: nat
  h_cluster_index :: nat
  h_total_size :: nat
  h_error_flag :: int
  h_pos :: nat

fun hypercube_H_LC_loop ::
  "bool \<Rightarrow> rng \<Rightarrow> nat \<Rightarrow> real \<Rightarrow> nat \<Rightarrow> nat list \<Rightarrow> hlc_state \<Rightarrow> error option \<times> hlc_state" where
  "hypercube_H_LC_loop early_exit draws N p NH [] st = (None, st)"
| "hypercube_H_LC_loop early_exit draws N p NH (site # sites) st =
     (if \<not> h_visited st ! site then
        (case grow_H_cluster draws N p 0 (h_stack st) site (h_array st) (h_visited st)
                (h_error_flag st) (h_cluster_index st) (Some (h_labels st)) (h_pos st) of
           (Some e, g) \<Rightarrow> (Some (after_fault e), st)
         | (None, g) \<Rightarrow>
             let cluster_size = g_size g;
                 st1 = st\<lparr>h_stack := g_stack g, h_visited := g_visited g, h_array := g_array g,
                          h_labels := (case g_labels g of None \<Rightarrow> h_labels st | Some l \<Rightarrow> l),
                          h_error_flag := g_error_flag g, h_pos := g_pos g,
                          h_total_size := ul_add (h_total_size st) cluster_size\<rparr>;
                 st2 = (if h_largest_cluster_size st1 < cluster_size
                        then st1\<lparr>h_largest_cluster_size := cluster_size,
                                 h_largest_cluster_index := h_cluster_index st1\<rparr>
                        else st1);
                 st3 = st2\<lparr>h_cluster_index := ul_add (h_cluster_index st2) 1\<rparr>
             in
             if early_exit \<and> ul_sub NH (h_total_size st3) \<le> h_largest_cluster_size st3
             then (None, st3)
             else hypercube_H_LC_loop early_exit draws N p NH sites st3)
      else hypercube_H_LC_loop early_exit draws N p NH sites st)"

text \<open>
  The copy of the largest cluster. In the source the pointer \<open>hamiltonian_LC_ptr\<close> is
  taken in \<open>hamiltonian\<close>, so the first store writes an entry of \<open>hamiltonian\<close> onto
  itself and only the transposed store reaches \<open>hamiltonian_LC\<close>.
\<close>

fun hypercube_H_LC_copy_row :: "nat \<Rightarrow> nat list \<Rightarrow> matrix \<times> matrix \<Rightarrow> matrix \<times> matrix" where
  "hypercube_H_LC_copy_row i [] (hamiltonian, hamiltonian_LC) = (hamiltonian, hamiltonian_LC)"
| "hypercube_H_LC_copy_row i (k # ks) (hamiltonian, hamiltonian_LC) =
     (let hamiltonian1 = array_set hamiltonian i k (hamiltonian ! i ! k);
          hamiltonian_LC1 = array_set hamiltonian_LC k i (hamiltonian1 ! i ! k)
      in hypercube_H_LC_copy_row i ks (hamiltonian1, hamiltonian_LC1))"

fun hypercube_H_LC_copy ::
  "nat list \<Rightarrow> nat \<Rightarrow> nat \<Rightarrow> nat list \<Rightarrow> matrix \<times> matrix \<Rightarrow> matrix \<times> matrix" where
  "hypercube_H_LC_copy labels largest_cluster_index NH [] HL = HL"
| "hypercube_H_LC_copy labels largest_cluster_index NH (i # is) HL =
     (if labels ! i = largest_cluster_index
      then hypercube_H_LC_copy labels largest_cluster_index NH is
             (hypercube_H_LC_copy_row i [0..<NH] HL)
      else hypercube_H_LC_copy labels largest_cluster_index NH is HL)"

definition hypercube_H_LC_enumerate :: "bool \<Rightarrow> rng \<Rightarrow> nat \<Rightarrow> real \<Rightarrow> error option \<times> hlc_state" where
  "hypercube_H_LC_enumerate early_exit draws N p =
     (let NH = intpower 2 N in
      hypercube_H_LC_loop early_exit draws N p NH [0..<NH]
        \<lparr>h_stack = setup_stack NH,
         h_visited = reset_visited (replicate NH False) NH,
         h_array = zeros NH,
         h_labels = replicate NH ULONG_MAX,
         h_largest_cluster_index = 0,
         h_largest_cluster_size = 0,
         h_cluster_index = 0,
         h_total_size = 0,
         h_error_flag = 0,
         h_pos = 0\<rparr>)"

definition hypercube_H_LC_run :: "bool \<Rightarrow> rng \<Rightarrow> nat \<Rightarrow> real \<Rightarrow> error + matrix \<times> nat" where
  "hypercube_H_LC_run early_exit draws N p =
     (if \<not> check_args N 1 p then Inl UninitialisedCleanup
      else
        (case hypercube_H_LC_enumerate early_exit draws N p of
           (Some e, st) \<Rightarrow> Inl e
         | (None, st) \<Rightarrow>
             let NH = intpower 2 N in
             Inr (snd (hypercube_H_LC_copy (h_labels st) (h_largest_cluster_index st) NH [0..<NH]
                         (h_array st, zeros NH)),
                  h_largest_cluster_size st)))"

definition hypercube_H_LC :: "rng \<Rightarrow> nat \<Rightarrow> real \<Rightarrow> error + matrix \<times> nat" where
  "hypercube_H_LC = hypercube_H_LC_run True"

definition hypercube_H_LC_exhaustive :: "rng \<Rightarrow> nat \<Rightarrow> real \<Rightarrow> error + matrix \<times> nat" where
  "hypercube_H_LC_exhaustive = hypercube_H_LC_run False"

subsection \<open>\<open>hypercube_dijkstra\<close>\<close>

text \<open>
  The copy loop shared by the two distance drivers: the entries of the selected sites go
  to \<open>finite_distances\<close>, a buffer of the size that was counted. A store past its end is
  undefined behaviour.
\<close>

fun copy_distances ::
  "(nat \<Rightarrow> bool) \<Rightarrow> nat list \<Rightarrow> nat list \<Rightarrow> nat list \<times> nat \<Rightarrow> error + nat list \<times> nat" where
  "copy_distances sel distances [] (finite_distances, counter) = Inr (finite_distances, counter)"
| "copy_distances sel distances (i # is) (finite_distances, counter) =
     (if sel i then
        (if length finite_distances \<le> counter then Inl OutOfBounds
         else copy_distances sel distances is
                (finite_distances[counter := distances ! i], counter + 1))
      else copy_distances sel distances is (finite_distances, counter))"

definition hypercube_dijkstra_visit :: "rng \<Rightarrow> nat \<Rightarrow> real \<Rightarrow> error option \<times> dijkstra_state" where
  "hypercube_dijkstra_visit draws N p =
     (let NH = intpower 2 N;
          q = setup_queue NH;
          visited = reset_visited (replicate NH False) NH;
          distances = (replicate NH ULONG_MAX)[0 := 0]
      in dijkstra draws q N p 0 visited distances 0 0 None 0)"

definition hypercube_dijkstra :: "rng \<Rightarrow> nat \<Rightarrow> real \<Rightarrow> error + nat list" where
  "hypercube_dijkstra draws N p =
     (if \<not> check_args N 1 p then Inl UninitialisedCleanup
      else
        (case hypercube_dijkstra_visit draws N p of
           (Some e, st) \<Rightarrow> Inl (after_fault e)
         | (None, st) \<Rightarrow>
             (case copy_distances (\<lambda>i. j_visited st ! i) (j_distances st) [0..<intpower 2 N]
                     (replicate (j_number_visited st) 0, 0) of
                Inl e \<Rightarrow> Inl e
              | Inr (finite_distances, counter) \<Rightarrow> Inr finite_distances)))"

subsection \<open>\<open>hypercube_dijkstra_LC\<close>\<close>

record dlc_state =
  k_queue :: queue
  k_visited :: "bool list"
  k_distances :: "nat list"
  k_labels :: "nat list"
  k_largest_cluster_index :: nat
  k_largest_cluster_size :: nat
  k_cluster_index :: nat
  k_total_size :: nat
  k_pos :: nat

fun hypercube_dijkstra_LC_loop ::
  "bool \<Rightarrow> rng \<Rightarrow> nat \<Rightarrow> real \<Rightarrow> nat \<Rightarrow> nat list \<Rightarrow> dlc_state \<Rightarrow> error option \<times> dlc_state" where
  "hypercube_dijkstra_LC_loop early_exit draws N p NH [] st = (None, st)"
| "hypercube_dijkstra_LC_loop early_exit draws N p NH (site # sites) st =
     (if \<not> k_visited st ! site then
        (case dijkstra draws (k_queue st) N p site (k_visited st) ((k_distances st)[site := 0]) 0
                (k_cluster_index st) (Some (k_labels st)) (k_pos st) of
           (Some e, j) \<Rightarrow> (Some (after_fault e), st)
         | (None, j) \<Rightarrow>
             let cluster_size = j_number_visited j;
                 st1 = st\<lparr>k_queue := j_queue j, k_visited := j_visited j,
                          k_distances := j_distances j,
                          k_labels := (case j_labels j of None \<Rightarrow> k_labels st | Some l \<Rightarrow> l),
                          k_pos := j_pos j,
                          k_total_size := ul_add (k_total_size st) cluster_size\<rparr>;
                 st2 = (if k_largest_cluster_size st1 < cluster_size
                        then st1\<lparr>k_largest_cluster_size := cluster_size,
                                 k_largest_cluster_index := k_cluster_index st1\<rparr>
                        else st1);
                 st3 = st2\<lparr>k_cluster_index := ul_add (k_cluster_index st2) 1\<rparr>
             in
             if early_exit \<and> ul_sub NH (k_total_size st3) \<le> k_largest_cluster_size st3
             then (None, st3)
             else hypercube_dijkstra_LC_loop early_exit draws N p NH sites st3)
      else hypercube_dijkstra_LC_loop early_exit draws N p NH sites st)"

definition hypercube_dijkstra_LC_enumerate :: "bool \<Rightarrow> rng \<Rightarrow> nat \<Rightarrow> real \<Rightarrow> error option \<times> dlc_state" where
  "hypercube_dijkstra_LC_enumerate early_exit draws N p =
     (let NH = intpower 2 N in
      hypercube_dijkstra_LC_loop early_exit draws N p NH [0..<NH]
        \<lparr>k_queue = setup_queue NH,
         k_visited = reset_visited (replicate NH False) NH,
         k_distances = replicate NH ULONG_MAX,
         k_labels = replicate NH ULONG_MAX,
         k_largest_cluster_index = 0,
         k_largest_cluster_size = 0,
         k_cluster_index = 0,
         k_total_size = 0,
         k_pos = 0\<rparr>)"

definition hypercube_dijkstra_LC_run :: "bool \<Rightarrow> rng \<Rightarrow> nat \<Rightarrow> real \<Rightarrow> error + nat list" where
  "hypercube_dijkstra_LC_run early_exit draws N p =
     (if \<not> check_args N 1 p then Inl UninitialisedCleanup
      else
        (case hypercube_dijkstra_LC_enumerate early_exit draws N p of
           (Some e, st) \<Rightarrow> Inl e
         | (None, st) \<Rightarrow>
             (case copy_distances (\<lambda>i. k_labels st ! i = k_largest_cluster_index st)
                     (k_distances st) [0..<intpower 2 N]
                     (replicate (k_largest_cluster_size st) 0, 0) of
                Inl e \<Rightarrow> Inl e
              | Inr (finite_distances, counter) \<Rightarrow> Inr finite_distances)))"

definition hypercube_dijkstra_LC :: "rng \<Rightarrow> nat \<Rightarrow> real \<Rightarrow> error + nat list" where
  "hypercube_dijkstra_LC = hypercube_dijkstra_LC_run True"

definition hypercube_dijkstra_LC_exhaustive :: "rng \<Rightarrow> nat \<Rightarrow> real \<Rightarrow> error + nat list" where
  "hypercube_dijkstra_LC_exhaustive = hypercube_dijkstra_LC_run False"

section \<open>Loop rules\<close>

text \<open>
  One rule for each \<open>while\<close> loop: a property \<open>P\<close> that every pass through the body
  keeps holds when the loop is left, whichever way it is left.
\<close>

lemma DFS_hypercube_while_rule:
  assumes "P st"
    and "\<And>st st'. P st \<Longrightarrow> 0 < top_s (d_stack st) \<Longrightarrow>
           DFS_hypercube_body draws p N st = (None, st') \<Longrightarrow> P st'"
    and "\<And>st e st'. P st \<Longrightarrow> 0 < top_s (d_stack st) \<Longrightarrow>
           DFS_hypercube_body draws p N st = (Some e, st') \<Longrightarrow> Q (Some e, st')"
    and "\<And>st. P st \<Longrightarrow> top_s (d_stack st) = 0 \<Longrightarrow> Q (None, st)"
  shows "Q (DFS_hypercube_while draws p N st)"
  using assms
proof (induction draws p N st rule: DFS_hypercube_while.induct)
  case (1 draws p N st)
  show ?case
  proof (cases "0 < top_s (d_stack st)")
    case False
    with 1(2) 1(5) show ?thesis by (simp add: DFS_hypercube_while.simps)
  next
    case True
    obtain r st' where b: "DFS_hypercube_body draws p N st = (r, st')"
      by (cases "DFS_hypercube_body draws p N st")
    show ?thesis
    proof (cases r)
      case None
      with b True 1(2) 1(3) have "P st'" by blast
      from 1(1) [OF True b [symmetric] None this 1(3) 1(4) 1(5)] True b None show ?thesis
        by (simp add: DFS_hypercube_while.simps [of draws p N st])
    next
      case (Some e)
      with b True 1(2) 1(4) have "Q (Some e, st')" by blast
      with True b Some show ?thesis by (simp add: DFS_hypercube_while.simps [of draws p N st])
    qed
  qed
qed

lemma grow_H_cluster_while_rule:
  assumes "P st"
    and "\<And>st st'. P st \<Longrightarrow> 0 < top_s (g_stack st) \<Longrightarrow>
           grow_H_cluster_body draws p N ci st = (None, st') \<Longrightarrow> P st'"
    and "\<And>st e st'. P st \<Longrightarrow> 0 < top_s (g_stack st) \<Longrightarrow>
           grow_H_cluster_body draws p N ci st = (Some e, st') \<Longrightarrow> Q (Some e, st')"
    and "\<And>st. P st \<Longrightarrow> top_s (g_stack st) = 0 \<Longrightarrow> Q (None, st)"
  shows "Q (grow_H_cluster_while draws p N ci st)"
  using assms
proof (induction draws p N ci st rule: grow_H_cluster_while.induct)
  case (1 draws p N ci st)
  show ?case
  proof (cases "0 < top_s (g_stack st)")
    case False
    with 1(2) 1(5) show ?thesis by (simp add: grow_H_cluster_while.simps)
  next
    case True
    obtain r st' where b: "grow_H_cluster_body draws p N ci st = (r, st')"
      by (cases "grow_H_cluster_body draws p N ci st")
    show ?thesis
    proof (cases r)
      case None
      with b True 1(2) 1(3) have "P st'" by blast
      from 1(1) [OF True b [symmetric] None this 1(3) 1(4) 1(5)] True b None show ?thesis
        by (simp add: grow_H_cluster_while.simps [of draws p N ci st])
    next
      case (Some e)
      with b True 1(2) 1(4) have "Q (Some e, st')" by blast
      with True b Some show ?thesis
        by (simp add: grow_H_cluster_while.simps [of draws p N ci st])
    qed
  qed
qed

lemma dijkstra_while_rule:
  assumes "P st"
    and "\<And>st st'. P st \<Longrightarrow> \<not> empty_q (j_queue st) \<Longrightarrow>
           dijkstra_body draws p N ci st = (None, st') \<Longrightarrow> P st'"
    and "\<And>st e st'. P st \<Longrightarrow> \<not> empty_q (j_queue st) \<Longrightarrow>
           dijkstra_body draws p N ci st = (Some e, st') \<Longrightarrow> Q (Some e, st')"
    and "\<And>st. P st \<Longrightarrow> empty_q (j_queue st) \<Longrightarrow> Q (None, st)"
  shows "Q (dijkstra_while draws p N ci st)"
  using assms
proof (induction draws p N ci st rule: dijkstra_while.induct)
  case (1 draws p N ci st)
  show ?case
  proof (cases "\<not> empty_q (j_queue st)")
    case False
    with 1(2) 1(5) show ?thesis by (simp add: dijkstra_while.simps)
  next
    case True
    obtain r st' where b: "dijkstra_body draws p N ci st = (r, st')"
      by (cases "dijkstra_body draws p N ci st")
    show ?thesis
    proof (cases r)
      case None
      with b True 1(2) 1(3) have "P st'" by blast
      from 1(1) [OF True b [symmetric] None this 1(3) 1(4) 1(5)] True b None show ?thesis
        by (simp add: dijkstra_while.simps [of draws p N ci st])
    next
      case (Some e)
      with b True 1(2) 1(4) have "Q (Some e, st')" by blast
      with True b Some show ?thesis by (simp add: dijkstra_while.simps [of draws p N ci st])
    qed
  qed
qed

section \<open>The reentrancy guard and the stack after a run\<close>

text \<open>A stack is well formed when its buffer has the size of its capacity and the top is within it.\<close>

definition stack_ok :: "stack \<Rightarrow> bool" where
  "stack_ok s = (length (sites_s s) = length_s s \<and> top_s s \<le> length_s s)"

lemma DFS_hypercube_neighbour_fault:
  "DFS_hypercube_neighbour draws p u i st = (Some e, st') \<Longrightarrow> e = PushFailed"
  by (auto simp: DFS_hypercube_neighbour_def Let_def split: if_splits prod.splits)

lemma DFS_hypercube_for_fault:
  assumes "DFS_hypercube_for draws p u is st = (Some e, st')"
  shows "e = PushFailed"
proof -
  have "case DFS_hypercube_for draws p u is st of (r, s') \<Rightarrow> r = None \<or> r = Some PushFailed"
    by (rule DFS_hypercube_for_rule [where P = "\<lambda>s. True"])
       (auto dest: DFS_hypercube_neighbour_fault)
  with assms show ?thesis by simp
qed

lemma grow_H_cluster_neighbour_fault:
  "grow_H_cluster_neighbour draws p u i st = (Some e, st') \<Longrightarrow> e = PushFailed"
  by (auto simp: grow_H_cluster_neighbour_def Let_def split: if_splits prod.splits)

lemma grow_H_cluster_for_fault:
  assumes "grow_H_cluster_for draws p u is st = (Some e, st')"
  shows "e = PushFailed"
proof -
  have "case grow_H_cluster_for draws p u is st of (r, s') \<Rightarrow> r = None \<or> r = Some PushFailed"
    by (rule grow_H_cluster_for_rule [where P = "\<lambda>s. True"])
       (auto dest: grow_H_cluster_neighbour_fault)
  with assms show ?thesis by simp
qed

lemma DFS_hypercube_body_fault:
  "DFS_hypercube_body draws p N st = (Some e, st') \<Longrightarrow> e \<noteq> StackNotEmpty"
  by (auto simp: DFS_hypercube_body_def Let_def split: prod.splits if_splits
      dest: DFS_hypercube_for_fault)

lemma grow_H_cluster_body_fault:
  "grow_H_cluster_body draws p N ci st = (Some e, st') \<Longrightarrow> e \<noteq> StackNotEmpty"
  by (auto simp: grow_H_cluster_body_def Let_def split: prod.splits if_splits
      dest: grow_H_cluster_for_fault)

lemma DFS_hypercube_while_exit:
  "(case DFS_hypercube_while draws p N st of
      (None, st') \<Rightarrow> top_s (d_stack st') = 0
    | (Some e, st') \<Rightarrow> e \<noteq> StackNotEmpty)"
  by (rule DFS_hypercube_while_rule [where P = "\<lambda>st. True"])
     (auto dest: DFS_hypercube_body_fault)

lemma grow_H_cluster_while_exit:
  "(case grow_H_cluster_while draws p N ci st of
      (None, st') \<Rightarrow> top_s (g_stack st') = 0
    | (Some e, st') \<Rightarrow> e \<noteq> StackNotEmpty)"
  by (rule grow_H_cluster_while_rule [where P = "\<lambda>st. True"])
     (auto dest: grow_H_cluster_body_fault)

lemma DFS_hypercube_top:
  assumes "DFS_hypercube draws s visited p N start_state err pos = (Inr n, st)"
  shows "top_s (d_stack st) = 0"
  using assms DFS_hypercube_while_exit [of draws p N
      "\<lparr>d_stack = fst (push s start_state), d_visited = visited, d_size = 0, d_pos = pos, d_error = err\<rparr>"]
  by (auto simp: DFS_hypercube_def Let_def split: if_splits prod.splits option.splits)

lemma DFS_hypercube_guard_free:
  assumes "top_s s = 0"
  shows "fst (DFS_hypercube draws s visited p N start_state err pos) \<noteq> Inl StackNotEmpty"
  using assms DFS_hypercube_while_exit [of draws p N
      "\<lparr>d_stack = fst (push s start_state), d_visited = visited, d_size = 0, d_pos = pos, d_error = err\<rparr>"]
  by (auto simp: DFS_hypercube_def Let_def split: if_splits prod.splits option.splits)

lemma grow_H_cluster_top:
  assumes "grow_H_cluster draws N p size0 s start_state A visited ef ci labels pos = (None, st)"
  shows "top_s (g_stack st) = 0"
  using assms grow_H_cluster_while_exit [of draws p N ci
      "\<lparr>g_stack = fst (push s start_state), g_visited = visited, g_size = size0, g_array = A,
        g_labels = labels, g_error_flag = ef, g_pos = pos\<rparr>"]
  by (auto simp: grow_H_cluster_def Let_def split: if_splits prod.splits option.splits)

lemma grow_H_cluster_guard_free:
  assumes "top_s s = 0"
  shows "fst (grow_H_cluster draws N p size0 s start_state A visited ef ci labels pos) \<noteq> Some StackNotEmpty"
  using assms grow_H_cluster_while_exit [of draws p N ci
      "\<lparr>g_stack = fst (push s start_state), g_visited = visited, g_size = size0, g_array = A,
        g_labels = labels, g_error_flag = ef, g_pos = pos\<rparr>"]
  by (auto simp: grow_H_cluster_def Let_def split: if_splits prod.splits option.splits)

lemma hypercube_clusters_loop_guard_free:
  "top_s s = 0 \<Longrightarrow> hypercube_clusters_loop draws N p NH n s visited out ef pos \<noteq> Inl StackNotEmpty"
proof (induction n arbitrary: s visited out ef pos)
  case 0
  then show ?case by simp
next
  case (Suc n)
  obtain r st where d: "DFS_hypercube draws s (reset_visited visited NH) p N 0 ef pos = (r, st)"
    by (cases "DFS_hypercube draws s (reset_visited visited NH) p N 0 ef pos")
  show ?case
  proof (cases r)
    case (Inl e)
    with d DFS_hypercube_guard_free [OF Suc.prems, of draws "reset_visited visited NH" p N 0 ef pos]
    show ?thesis by simp
  next
    case (Inr m)
    with d have "top_s (d_stack st) = 0" by (auto dest: DFS_hypercube_top)
    from Suc.IH [OF this] d Inr show ?thesis by simp
  qed
qed

text \<open>
  The two guards. Entered with a non-empty stack, \<open>DFS_hypercube\<close> sets \<open>*error\<close>
  to -1 and returns 0, and \<open>grow_H_cluster\<close> takes its error exit; neither pops,
  visits, labels, draws a variate or counts a site: the state is the state at entry.
  Entered with an empty stack, neither function takes this exit.
\<close>

lemma reentrancy_guard:
  "(top_s s \<noteq> 0 \<longrightarrow>
      DFS_hypercube draws s visited p N start_state err pos =
        (Inl StackNotEmpty,
         \<lparr>d_stack = s, d_visited = visited, d_size = 0, d_pos = pos, d_error = - 1\<rparr>)
      \<and> returned (fst (DFS_hypercube draws s visited p N start_state err pos)) = 0
      \<and> grow_H_cluster draws N p size0 s start_state A visited ef ci labels pos =
        (Some StackNotEmpty,
         \<lparr>g_stack = s, g_visited = visited, g_size = size0, g_array = A, g_labels = labels,
          g_error_flag = ef, g_pos = pos\<rparr>))
   \<and> (top_s s = 0 \<longrightarrow>
      fst (DFS_hypercube draws s visited p N start_state err pos) \<noteq> Inl StackNotEmpty
      \<and> fst (grow_H_cluster draws N p size0 s start_state A visited ef ci labels pos)
          \<noteq> Some StackNotEmpty)"
proof (intro conjI impI)
  assume "top_s s \<noteq> 0"
  then show "DFS_hypercube draws s visited p N start_state err pos =
        (Inl StackNotEmpty,
         \<lparr>d_stack = s, d_visited = visited, d_size = 0, d_pos = pos, d_error = - 1\<rparr>)"
    by (simp add: DFS_hypercube_def)
  then show "returned (fst (DFS_hypercube draws s visited p N start_state err pos)) = 0"
    by (simp add: returned_def)
  from \<open>top_s s \<noteq> 0\<close>
  show "grow_H_cluster draws N p size0 s start_state A visited ef ci labels pos =
        (Some StackNotEmpty,
         \<lparr>g_stack = s, g_visited = visited, g_size = size0, g_array = A, g_labels = labels,
          g_error_flag = ef, g_pos = pos\<rparr>)"
    by (simp add: grow_H_cluster_def)
next
  assume "top_s s = 0"
  then show "fst (DFS_hypercube draws s visited p N start_state err pos) \<noteq> Inl StackNotEmpty"
    by (rule DFS_hypercube_guard_free)
  from \<open>top_s s = 0\<close>
  show "fst (grow_H_cluster draws N p size0 s start_state A visited ef ci labels pos)
          \<noteq> Some StackNotEmpty"
    by (rule grow_H_cluster_guard_free)
qed

lemma reentrancy_guard_example:
  "fst (DFS_hypercube (\<lambda>k. 0) \<lparr>sites_s = [3, 0], length_s = 2, top_s = 1, NH_s = 2\<rparr>
          [False, False] 1 1 0 0 0) = Inl StackNotEmpty
   \<and> d_error (snd (DFS_hypercube (\<lambda>k. 0) \<lparr>sites_s = [3, 0], length_s = 2, top_s = 1, NH_s = 2\<rparr>
          [False, False] 1 1 0 0 0)) = - 1
   \<and> fst (grow_H_cluster (\<lambda>k. 0) 1 1 0 \<lparr>sites_s = [3, 0], length_s = 2, top_s = 1, NH_s = 2\<rparr>
          0 (zeros 2) [False, False] 0 0 None 0) = Some StackNotEmpty
   \<and> fst (DFS_hypercube (\<lambda>k. 0) (setup_stack 2) [False, False] 1 1 0 0 0) \<noteq> Inl StackNotEmpty
   \<and> fst (grow_H_cluster (\<lambda>k. 0) 1 1 0 (setup_stack 2) 0 (zeros 2) [False, False] 0 0 None 0)
        \<noteq> Some StackNotEmpty"
  using reentrancy_guard [of "\<lparr>sites_s = [3, 0], length_s = 2, top_s = 1, NH_s = 2\<rparr>"
      "\<lambda>k. 0" "[False, False]" 1 1 0 0 0 0 "zeros 2" 0 0 None]
    reentrancy_guard [of "setup_stack 2" "\<lambda>k. 0" "[False, False]" 1 1 0 0 0 0 "zeros 2" 0 0 None]
  by (simp add: setup_stack_def)

text \<open>
  Claim C8. The claim asks both guards to set the error flag. The guard of
  \<open>DFS_hypercube\<close> does (\<open>*error = -1\<close>); the guard of \<open>grow_H_cluster\<close>, which
  raises the same exception, does not write \<open>*error_flag\<close>, although the function
  documents the argument as the pointer used to flag errors and tests it after \<open>pop\<close>.
  Entered with one site on a stack of capacity 2 and with the flag at 0, both functions
  take the error exit; \<open>DFS_hypercube\<close> leaves the flag at -1 and returns 0,
  \<open>grow_H_cluster\<close> leaves it at 0.
\<close>

theorem grow_H_cluster_guard_flag_unset:
  "fst (DFS_hypercube (\<lambda>k. 0) \<lparr>sites_s = [3, 0], length_s = 2, top_s = 1, NH_s = 2\<rparr>
          [False, False] 1 1 0 0 0) = Inl StackNotEmpty
   \<and> d_error (snd (DFS_hypercube (\<lambda>k. 0) \<lparr>sites_s = [3, 0], length_s = 2, top_s = 1, NH_s = 2\<rparr>
          [False, False] 1 1 0 0 0)) = - 1
   \<and> returned (fst (DFS_hypercube (\<lambda>k. 0) \<lparr>sites_s = [3, 0], length_s = 2, top_s = 1, NH_s = 2\<rparr>
          [False, False] 1 1 0 0 0)) = 0
   \<and> fst (grow_H_cluster (\<lambda>k. 0) 1 1 0 \<lparr>sites_s = [3, 0], length_s = 2, top_s = 1, NH_s = 2\<rparr>
          0 (zeros 2) [False, False] 0 0 None 0) = Some StackNotEmpty
   \<and> g_error_flag (snd (grow_H_cluster (\<lambda>k. 0) 1 1 0
          \<lparr>sites_s = [3, 0], length_s = 2, top_s = 1, NH_s = 2\<rparr>
          0 (zeros 2) [False, False] 0 0 None 0)) = 0"
  by (simp add: grow_H_cluster_def DFS_hypercube_def returned_def)

text \<open>
  Claim C10. A run of \<open>DFS_hypercube\<close> or of \<open>grow_H_cluster\<close> that does not end in
  an error leaves the stack empty, so the next traversal on the same stack does not take
  the exit of the reentrancy guard, whatever its other arguments are; and
  \<open>hypercube_clusters\<close>, which reuses one stack for all its realisations without
  resetting it, never fails with that error.
\<close>

theorem stack_empty_after_run:
  "(fst (DFS_hypercube draws s visited p N start_state err pos) = Inr n \<longrightarrow>
      top_s (d_stack (snd (DFS_hypercube draws s visited p N start_state err pos))) = 0
      \<and> fst (DFS_hypercube draws' (d_stack (snd (DFS_hypercube draws s visited p N start_state err pos)))
               visited' p' N' start_state' err' pos') \<noteq> Inl StackNotEmpty)
   \<and> (fst (grow_H_cluster draws N p size0 s start_state A visited ef ci labels pos) = None \<longrightarrow>
      top_s (g_stack (snd (grow_H_cluster draws N p size0 s start_state A visited ef ci labels pos))) = 0
      \<and> fst (grow_H_cluster draws' N' p' size0' 
               (g_stack (snd (grow_H_cluster draws N p size0 s start_state A visited ef ci labels pos)))
               start_state' A' visited' ef' ci' labels' pos') \<noteq> Some StackNotEmpty)
   \<and> hypercube_clusters draws N NR p \<noteq> Inl StackNotEmpty"
proof (intro conjI impI)
  assume a: "fst (DFS_hypercube draws s visited p N start_state err pos) = Inr n"
  then have "DFS_hypercube draws s visited p N start_state err pos
      = (Inr n, snd (DFS_hypercube draws s visited p N start_state err pos))"
    by (metis prod.collapse)
  then show t: "top_s (d_stack (snd (DFS_hypercube draws s visited p N start_state err pos))) = 0"
    by (rule DFS_hypercube_top)
  then show "fst (DFS_hypercube draws' (d_stack (snd (DFS_hypercube draws s visited p N start_state err pos)))
               visited' p' N' start_state' err' pos') \<noteq> Inl StackNotEmpty"
    by (rule DFS_hypercube_guard_free)
next
  assume a: "fst (grow_H_cluster draws N p size0 s start_state A visited ef ci labels pos) = None"
  then have "grow_H_cluster draws N p size0 s start_state A visited ef ci labels pos
      = (None, snd (grow_H_cluster draws N p size0 s start_state A visited ef ci labels pos))"
    by (metis prod.collapse)
  then show t: "top_s (g_stack (snd (grow_H_cluster draws N p size0 s start_state A visited ef ci labels pos))) = 0"
    by (rule grow_H_cluster_top)
  then show "fst (grow_H_cluster draws' N' p' size0'
               (g_stack (snd (grow_H_cluster draws N p size0 s start_state A visited ef ci labels pos)))
               start_state' A' visited' ef' ci' labels' pos') \<noteq> Some StackNotEmpty"
    by (rule grow_H_cluster_guard_free)
next
  show "hypercube_clusters draws N NR p \<noteq> Inl StackNotEmpty"
    using hypercube_clusters_loop_guard_free [of "setup_stack (intpower 2 N)" draws N p
        "intpower 2 N" NR "replicate (intpower 2 N) False" "[]" 0 0]
    by (simp add: hypercube_clusters_def Let_def setup_stack_def)
qed

theorem stack_empty_after_run_witness:
  "fst (DFS_hypercube (\<lambda>k. 0) (setup_stack 4) (replicate 4 False) 1 2 0 0 0) = Inr 4
   \<and> top_s (d_stack (snd (DFS_hypercube (\<lambda>k. 0) (setup_stack 4) (replicate 4 False) 1 2 0 0 0))) = 0
   \<and> fst (grow_H_cluster (\<lambda>k. 0) 2 1 0 (setup_stack 4) 0 (zeros 4) (replicate 4 False) 0 0 None 0) = None
   \<and> top_s (g_stack (snd (grow_H_cluster (\<lambda>k. 0) 2 1 0 (setup_stack 4) 0 (zeros 4)
        (replicate 4 False) 0 0 None 0))) = 0"
proof -
  have d: "fst (DFS_hypercube (\<lambda>k. 0) (setup_stack 4) (replicate 4 False) 1 2 0 0 0) = Inr 4"
    by code_simp
  have g: "fst (grow_H_cluster (\<lambda>k. 0) 2 1 0 (setup_stack 4) 0 (zeros 4) (replicate 4 False) 0 0 None 0) = None"
    by code_simp
  note T = stack_empty_after_run [of "\<lambda>k. 0" "setup_stack 4" "replicate 4 False" 1 2 0 0 0 4
      "\<lambda>k. 0" "replicate 4 False" 1 2 0 0 0 0 "zeros 4" 0 0 None 0 "zeros 4" 0 0 None 1]
  have t1: "top_s (d_stack (snd (DFS_hypercube (\<lambda>k. 0) (setup_stack 4) (replicate 4 False) 1 2 0 0 0))) = 0"
    by (rule T [THEN conjunct1, THEN mp, OF d, THEN conjunct1])
  have t2: "top_s (g_stack (snd (grow_H_cluster (\<lambda>k. 0) 2 1 0 (setup_stack 4) 0 (zeros 4)
        (replicate 4 False) 0 0 None 0))) = 0"
    by (rule T [THEN conjunct2, THEN conjunct1, THEN mp, OF g, THEN conjunct1])
  from d t1 g t2 show ?thesis by (intro conjI)
qed

section \<open>No retained edge: \<open>p = 0\<close>\<close>

lemma DFS_hypercube_neighbour_no_push:
  assumes "\<forall>k. p \<le> draws k"
  shows "DFS_hypercube_neighbour draws p u i st =
     (None, st\<lparr>d_pos := (if d_visited st ! (u XOR 2 ^ i) then d_pos st else d_pos st + 1)\<rparr>)"
proof -
  from assms have np: "\<not> draws (d_pos st) < p" by (simp add: not_less)
  then show ?thesis by (simp add: DFS_hypercube_neighbour_def Let_def)
qed

lemma DFS_hypercube_for_no_push:
  assumes "\<forall>k. p \<le> draws k"
  shows "\<exists>pos'. DFS_hypercube_for draws p u is st = (None, st\<lparr>d_pos := pos'\<rparr>)"
proof (induction "is" arbitrary: st)
  case Nil
  have "DFS_hypercube_for draws p u [] st = (None, st\<lparr>d_pos := d_pos st\<rparr>)" by simp
  then show ?case ..
next
  case (Cons i "is")
  let ?pos1 = "if d_visited st ! (u XOR 2 ^ i) then d_pos st else d_pos st + 1"
  from Cons [of "st\<lparr>d_pos := ?pos1\<rparr>"]
  obtain pos' where "DFS_hypercube_for draws p u is (st\<lparr>d_pos := ?pos1\<rparr>)
      = (None, st\<lparr>d_pos := ?pos1\<rparr>\<lparr>d_pos := pos'\<rparr>)" ..
  then have "DFS_hypercube_for draws p u (i # is) st = (None, st\<lparr>d_pos := pos'\<rparr>)"
    by (simp add: DFS_hypercube_neighbour_no_push [OF assms])
  then show ?case ..
qed

text \<open>
  Claim C7. For \<open>p = 0\<close> a traversal by \<open>DFS_hypercube\<close> returns the size 1, for every
  dimension, every seed that is not yet visited (the driver resets the visited array
  before each traversal) and every sequence of variates in \<open>[0, 1)\<close>: no variate is below
  0, so no neighbour is pushed. The stack is empty on entry and has room for the seed.
\<close>

theorem DFS_hypercube_p0:
  assumes "uniform_range draws" "stack_ok s" "top_s s = 0" "0 < length_s s"
    "start_state < length visited" "\<not> visited ! start_state" "err \<noteq> - 1"
  shows "fst (DFS_hypercube draws s visited 0 N start_state err pos) = Inr 1"
proof -
  from assms(1) have d: "\<forall>k. 0 \<le> draws k" by (simp add: uniform_range_def)
  let ?st1 = "\<lparr>d_stack = s\<lparr>sites_s := (sites_s s)[0 := start_state], top_s := 0\<rparr>,
               d_visited = visited[start_state := True], d_size = ul_add 0 1,
               d_pos = pos, d_error = err\<rparr>"
  from DFS_hypercube_for_no_push [OF d, of start_state "[0..<N]" ?st1]
  obtain pos' where f: "DFS_hypercube_for draws 0 start_state [0..<N] ?st1 = (None, ?st1\<lparr>d_pos := pos'\<rparr>)"
    by blast
  from assms(2,4) have l: "0 < length (sites_s s)" by (simp add: stack_ok_def)
  show ?thesis
    using assms(3-7) f l
    by (simp add: DFS_hypercube_def push_def DFS_hypercube_while.simps DFS_hypercube_body_def
        pop_def Let_def ul_add_def)
qed

theorem DFS_hypercube_p0_witness:
  "fst (DFS_hypercube (\<lambda>k. 0) (setup_stack 4) (replicate 4 False) 0 2 3 0 0) = Inr 1"
proof -
  have 1: "uniform_range (\<lambda>k. 0)" by (simp add: uniform_range_def)
  have 2: "stack_ok (setup_stack 4)" by (simp add: stack_ok_def setup_stack_def)
  have 3: "top_s (setup_stack 4) = 0" by (simp add: setup_stack_def)
  have 4: "0 < length_s (setup_stack 4)" by (simp add: setup_stack_def)
  have 5: "3 < length (replicate 4 False)" by simp
  have 6: "\<not> replicate 4 False ! 3" by simp
  have 7: "(0::int) \<noteq> - 1" by simp
  show ?thesis by (rule DFS_hypercube_p0 [OF 1 2 3 4 5 6 7])
qed

section \<open>The distance array only decreases\<close>








text \<open>An instance: the four distances of the square at \<open>p = 1\<close>.\<close>

lemma distances_only_decrease_example:
  "j_distances (snd (hypercube_dijkstra_visit (\<lambda>k. 0) 2 1)) = [0, 1, 1, 2]"
  by code_simp

section \<open>Capacity of the stack\<close>

lemma push_room:
  assumes "top_s s < length_s s"
  shows "push s v = (s\<lparr>sites_s := (sites_s s)[top_s s := v], top_s := top_s s + 1\<rparr>, 0)"
  using assms by (simp add: push_def)

lemma DFS_hypercube_neighbour_room:
  assumes "top_s (d_stack st) < length_s (d_stack st)"
  shows "case DFS_hypercube_neighbour draws p u i st of (r, st') \<Rightarrow>
           r = None \<and> top_s (d_stack st') \<le> top_s (d_stack st) + 1
           \<and> length_s (d_stack st') = length_s (d_stack st)
           \<and> d_visited st' = d_visited st"
  using assms by (simp add: DFS_hypercube_neighbour_def Let_def push_room)

lemma DFS_hypercube_for_room:
  assumes "top_s (d_stack st) + length is \<le> length_s (d_stack st)"
  shows "case DFS_hypercube_for draws p u is st of (r, st') \<Rightarrow>
           r = None \<and> top_s (d_stack st') \<le> top_s (d_stack st) + length is
           \<and> length_s (d_stack st') = length_s (d_stack st)
           \<and> d_visited st' = d_visited st"
  using assms
proof (induction "is" arbitrary: st)
  case Nil
  then show ?case by simp
next
  case (Cons i "is")
  obtain r st1 where n: "DFS_hypercube_neighbour draws p u i st = (r, st1)"
    by (cases "DFS_hypercube_neighbour draws p u i st")
  from Cons.prems have "top_s (d_stack st) < length_s (d_stack st)" by simp
  from DFS_hypercube_neighbour_room [OF this, of draws p u i] n
  have 1: "r = None" "top_s (d_stack st1) \<le> top_s (d_stack st) + 1"
    "length_s (d_stack st1) = length_s (d_stack st)" "d_visited st1 = d_visited st"
    by simp_all
  with Cons.prems have "top_s (d_stack st1) + length is \<le> length_s (d_stack st1)" by simp
  from Cons.IH [OF this] 1 n show ?case by (auto simp: split_beta)
qed

lemma DFS_hypercube_body_room:
  assumes "length_s (d_stack st) = L" "C \<le> L" "0 < top_s (d_stack st)"
    and "top_s (d_stack st) + N * unvisited (d_visited st) \<le> 1 + C"
    and "DFS_hypercube_body draws p N st = (r, st')"
  shows "r \<noteq> Some PushFailed
       \<and> length_s (d_stack st') = L
       \<and> top_s (d_stack st') + N * unvisited (d_visited st') \<le> 1 + C"
proof -
  let ?u = "sites_s (d_stack st) ! (top_s (d_stack st) - 1)"
  let ?s1 = "(d_stack st)\<lparr>top_s := top_s (d_stack st) - 1\<rparr>"
  from assms(3) have pop: "pop (d_stack st) (d_error st) = (?u, ?s1, d_error st)"
    by (simp add: pop_def)
  show ?thesis
  proof (cases "d_error st = - 1 \<or> length (d_visited st) \<le> ?u \<or> d_visited st ! ?u")
    case True
    with assms pop show ?thesis
      by (auto simp: DFS_hypercube_body_def Let_def split: if_splits)
  next
    case False
    let ?st2 = "st\<lparr>d_stack := ?s1, d_error := d_error st,
                   d_visited := (d_visited st)[?u := True], d_size := ul_add (d_size st) 1\<rparr>"
    from False pop assms(5)
    have f: "DFS_hypercube_for draws p ?u [0..<N] ?st2 = (r, st')"
      by (simp add: DFS_hypercube_body_def Let_def)
    from False have unv: "Suc (unvisited ((d_visited st)[?u := True])) = unvisited (d_visited st)"
      by (intro unvisited_update) auto
    then have nle: "N * unvisited (d_visited st) = N + N * unvisited ((d_visited st)[?u := True])"
      by (metis mult_Suc_right)
    have t2: "top_s (d_stack ?st2) = top_s (d_stack st) - 1" "length_s (d_stack ?st2) = L"
      "length [0..<N] = N"
      by (simp_all add: assms(1))
    have "top_s (d_stack st) - 1 + N \<le> L"
      using nle assms(2,3,4) by linarith
    then have room: "top_s (d_stack ?st2) + length [0..<N] \<le> length_s (d_stack ?st2)"
      unfolding t2 .
    from DFS_hypercube_for_room [OF room, of draws p ?u] f
    have 2: "r = None" "top_s (d_stack st') \<le> top_s (d_stack ?st2) + length [0..<N]"
      "length_s (d_stack st') = length_s (d_stack ?st2)"
      "d_visited st' = (d_visited st)[?u := True]"
      by simp_all
    from 2(2) have 3: "top_s (d_stack st') \<le> top_s (d_stack st) - 1 + N"
      unfolding t2 .
    from 2(3) have 4: "length_s (d_stack st') = L" unfolding t2 .
    have "top_s (d_stack st') + N * unvisited ((d_visited st)[?u := True]) \<le> 1 + C"
      using 3 nle assms(3,4) by linarith
    with 2(1,4) 4 show ?thesis by simp
  qed
qed

lemma DFS_hypercube_room:
  assumes "top_s s = 0" "N * unvisited visited \<le> length_s s"
  shows "fst (DFS_hypercube draws s visited p N start_state err pos) \<noteq> Inl PushFailed"
proof -
  let ?st0 = "\<lparr>d_stack = fst (push s start_state), d_visited = visited, d_size = 0,
               d_pos = pos, d_error = err\<rparr>"
  let ?P = "\<lambda>st. length_s (d_stack st) = length_s s
              \<and> top_s (d_stack st) + N * unvisited (d_visited st) \<le> 1 + N * unvisited visited"
  have "case DFS_hypercube_while draws p N ?st0 of (r, st') \<Rightarrow> r \<noteq> Some PushFailed"
  proof (rule DFS_hypercube_while_rule [where P = ?P], goal_cases)
    case 1
    from assms(1) show ?case by (simp add: push_def)
  next
    case (2 st st')
    with DFS_hypercube_body_room [of st "length_s s" "N * unvisited visited" N draws p None st']
      assms(2)
    show ?case by simp
  next
    case (3 st e st')
    with DFS_hypercube_body_room [of st "length_s s" "N * unvisited visited" N draws p "Some e" st']
      assms(2)
    show ?case by simp
  next
    case (4 st)
    show ?case by simp
  qed
  with assms(1) show ?thesis
    by (auto simp: DFS_hypercube_def Let_def split: prod.splits option.splits)
qed

lemma grow_H_cluster_neighbour_room:
  assumes "top_s (g_stack st) < length_s (g_stack st)"
  shows "case grow_H_cluster_neighbour draws p u i st of (r, st') \<Rightarrow>
           r = None \<and> top_s (g_stack st') \<le> top_s (g_stack st) + 1
           \<and> length_s (g_stack st') = length_s (g_stack st)
           \<and> g_visited st' = g_visited st"
  using assms by (simp add: grow_H_cluster_neighbour_def Let_def push_room)

lemma grow_H_cluster_for_room:
  assumes "top_s (g_stack st) + length is \<le> length_s (g_stack st)"
  shows "case grow_H_cluster_for draws p u is st of (r, st') \<Rightarrow>
           r = None \<and> top_s (g_stack st') \<le> top_s (g_stack st) + length is
           \<and> length_s (g_stack st') = length_s (g_stack st)
           \<and> g_visited st' = g_visited st"
  using assms
proof (induction "is" arbitrary: st)
  case Nil
  then show ?case by simp
next
  case (Cons i "is")
  obtain r st1 where n: "grow_H_cluster_neighbour draws p u i st = (r, st1)"
    by (cases "grow_H_cluster_neighbour draws p u i st")
  from Cons.prems have "top_s (g_stack st) < length_s (g_stack st)" by simp
  from grow_H_cluster_neighbour_room [OF this, of draws p u i] n
  have 1: "r = None" "top_s (g_stack st1) \<le> top_s (g_stack st) + 1"
    "length_s (g_stack st1) = length_s (g_stack st)" "g_visited st1 = g_visited st"
    by simp_all
  with Cons.prems have "top_s (g_stack st1) + length is \<le> length_s (g_stack st1)" by simp
  from Cons.IH [OF this] 1 n show ?case by (auto simp: split_beta)
qed

lemma grow_H_cluster_body_room:
  assumes "length_s (g_stack st) = L" "C \<le> L" "0 < top_s (g_stack st)"
    and "top_s (g_stack st) + N * unvisited (g_visited st) \<le> 1 + C"
    and "grow_H_cluster_body draws p N ci st = (r, st')"
  shows "r \<noteq> Some PushFailed
       \<and> length_s (g_stack st') = L
       \<and> top_s (g_stack st') + N * unvisited (g_visited st') \<le> 1 + C"
proof -
  let ?u = "sites_s (g_stack st) ! (top_s (g_stack st) - 1)"
  let ?s1 = "(g_stack st)\<lparr>top_s := top_s (g_stack st) - 1\<rparr>"
  from assms(3) have pop: "pop (g_stack st) (g_error_flag st) = (?u, ?s1, g_error_flag st)"
    by (simp add: pop_def)
  show ?thesis
  proof (cases "g_error_flag st = - 1 \<or> length (g_visited st) \<le> ?u \<or> g_visited st ! ?u")
    case True
    with assms pop show ?thesis
      by (auto simp: grow_H_cluster_body_def Let_def split: if_splits)
  next
    case False
    let ?st2 = "st\<lparr>g_stack := ?s1, g_error_flag := g_error_flag st,
                   g_visited := (g_visited st)[?u := True],
                   g_labels := map_option (\<lambda>l. l[?u := ci]) (g_labels st),
                   g_size := ul_add (g_size st) 1\<rparr>"
    from False pop assms(5)
    have f: "grow_H_cluster_for draws p ?u [0..<N] ?st2 = (r, st')"
      by (simp add: grow_H_cluster_body_def Let_def)
    from False have unv: "Suc (unvisited ((g_visited st)[?u := True])) = unvisited (g_visited st)"
      by (intro unvisited_update) auto
    then have nle: "N * unvisited (g_visited st) = N + N * unvisited ((g_visited st)[?u := True])"
      by (metis mult_Suc_right)
    have t2: "top_s (g_stack ?st2) = top_s (g_stack st) - 1" "length_s (g_stack ?st2) = L"
      "length [0..<N] = N"
      by (simp_all add: assms(1))
    have "top_s (g_stack st) - 1 + N \<le> L"
      using nle assms(2,3,4) by linarith
    then have room: "top_s (g_stack ?st2) + length [0..<N] \<le> length_s (g_stack ?st2)"
      unfolding t2 .
    from grow_H_cluster_for_room [OF room, of draws p ?u] f
    have 2: "r = None" "top_s (g_stack st') \<le> top_s (g_stack ?st2) + length [0..<N]"
      "length_s (g_stack st') = length_s (g_stack ?st2)"
      "g_visited st' = (g_visited st)[?u := True]"
      by simp_all
    from 2(2) have 3: "top_s (g_stack st') \<le> top_s (g_stack st) - 1 + N"
      unfolding t2 .
    from 2(3) have 4: "length_s (g_stack st') = L" unfolding t2 .
    have "top_s (g_stack st') + N * unvisited ((g_visited st)[?u := True]) \<le> 1 + C"
      using 3 nle assms(3,4) by linarith
    with 2(1,4) 4 show ?thesis by simp
  qed
qed

lemma grow_H_cluster_room:
  assumes "top_s s = 0" "N * unvisited visited \<le> length_s s"
  shows "fst (grow_H_cluster draws N p size0 s start_state A visited ef ci labels pos)
           \<noteq> Some PushFailed"
proof -
  let ?st0 = "\<lparr>g_stack = fst (push s start_state), g_visited = visited, g_size = size0,
               g_array = A, g_labels = labels, g_error_flag = ef, g_pos = pos\<rparr>"
  let ?P = "\<lambda>st. length_s (g_stack st) = length_s s
              \<and> top_s (g_stack st) + N * unvisited (g_visited st) \<le> 1 + N * unvisited visited"
  have "case grow_H_cluster_while draws p N ci ?st0 of (r, st') \<Rightarrow> r \<noteq> Some PushFailed"
  proof (rule grow_H_cluster_while_rule [where P = ?P], goal_cases)
    case 1
    from assms(1) show ?case by (simp add: push_def)
  next
    case (2 st st')
    with grow_H_cluster_body_room [of st "length_s s" "N * unvisited visited" N draws p ci None st']
      assms(2)
    show ?case by simp
  next
    case (3 st e st')
    with grow_H_cluster_body_room [of st "length_s s" "N * unvisited visited" N draws p ci "Some e" st']
      assms(2)
    show ?case by simp
  next
    case (4 st)
    show ?case by simp
  qed
  with assms(1) show ?thesis
    by (auto simp: grow_H_cluster_def Let_def split: prod.splits option.splits)
qed

lemma unvisited_replicate: "unvisited (replicate n False) = n"
  by (simp add: unvisited_def)

text \<open>
  The capacity that the counting argument gives. A site that is visited pushes at most
  one entry per incident edge, so a traversal that starts with an empty stack of capacity
  at least \<open>N\<close> times the number of unvisited sites never takes the exit of a failed
  push, for every \<open>N\<close>, \<open>p\<close>, seed and sequence of variates.
\<close>

lemma push_failure_unreachable_with_room:
  "top_s s = 0 \<and> N * unvisited visited \<le> length_s s \<longrightarrow>
     fst (DFS_hypercube draws s visited p N start_state err pos) \<noteq> Inl PushFailed
     \<and> fst (grow_H_cluster draws N p size0 s start_state A visited ef ci labels pos)
          \<noteq> Some PushFailed"
  using DFS_hypercube_room [of s N visited draws p start_state err pos]
    grow_H_cluster_room [of s N visited draws p size0 start_state A ef ci labels pos]
  by blast

lemma push_failure_unreachable_with_room_example:
  "fst (DFS_hypercube (\<lambda>k. 0) (setup_stack 64) (replicate 16 False) 1 4 0 0 0) \<noteq> Inl PushFailed
   \<and> fst (grow_H_cluster (\<lambda>k. 0) 4 1 0 (setup_stack 64) 0 (zeros 16) (replicate 16 False) 0 0 None 0)
        \<noteq> Some PushFailed"
proof -
  have 1: "top_s (setup_stack 64) = 0 \<and> 4 * unvisited (replicate 16 False) \<le> length_s (setup_stack 64)"
    by (simp add: setup_stack_def unvisited_replicate)
  from push_failure_unreachable_with_room [of "setup_stack 64" 4 "replicate 16 False"
      "\<lambda>k. 0" 1 0 0 0 0 "zeros 16" 0 0 None, THEN mp, OF 1]
  show ?thesis .
qed

text \<open>
  Claim C4. The drivers set the stack up with the graph order \<open>2 ^ N\<close> as its
  capacity, and the claim is that no push fails then. In dimension 4 with \<open>p = 1\<close>
  and seed 0 the seventeenth outstanding entry does not fit into the 16 places: both
  engines take the exit of the failed push, \<open>hypercube_clusters\<close> gives up without the
  array of sizes, and \<open>hypercube_H_SC\<close> goes on with the buffers that
  \<open>grow_H_cluster\<close> has released.
\<close>

theorem push_failure_at_order_16:
  "fst (DFS_hypercube (\<lambda>k. 0) (setup_stack (intpower 2 4)) (replicate (intpower 2 4) False)
          1 4 0 0 0) = Inl PushFailed
   \<and> fst (grow_H_cluster (\<lambda>k. 0) 4 1 0 (setup_stack (intpower 2 4)) 0 (zeros (intpower 2 4))
          (replicate (intpower 2 4) False) 0 0 None 0) = Some PushFailed
   \<and> hypercube_clusters (\<lambda>k. 0) 4 1 1 = Inl PushFailed
   \<and> hypercube_H_SC (\<lambda>k. 0) 4 1 = Inl UseAfterFree"
  by code_simp

section \<open>Sites, arrays and matrices\<close>

lemma xor_bound:
  fixes u :: nat
  assumes "u < 2 ^ N" "i < N"
  shows "u XOR 2 ^ i < 2 ^ N"
proof -
  have "take_bit N (u XOR 2 ^ i) = take_bit N u XOR take_bit N (2 ^ i)"
    by (rule take_bit_xor)
  also from assms have "\<dots> = u XOR 2 ^ i"
    by (simp add: take_bit_nat_eq_self take_bit_of_exp)
  finally have "take_bit N (u XOR 2 ^ i) = u XOR 2 ^ i" .
  then show ?thesis by (rule take_bit_nat_eq_self_iff [THEN iffD1])
qed

lemma xor_neq:
  fixes u :: nat
  shows "u XOR 2 ^ i \<noteq> u"
proof
  assume "u XOR 2 ^ i = u"
  then have "bit (u XOR 2 ^ i) i = bit u i" by simp
  then show False by (simp add: bit_xor_iff bit_exp_iff)
qed

lemma xor_involution:
  fixes u :: nat
  shows "(u XOR 2 ^ i) XOR 2 ^ i = u"
  by (simp add: xor.assoc)

definition square :: "nat \<Rightarrow> matrix \<Rightarrow> bool" where
  "square n M = (length M = n \<and> (\<forall>i<n. length (M ! i) = n))"

definition symmetric :: "nat \<Rightarrow> matrix \<Rightarrow> bool" where
  "symmetric n M = (\<forall>i<n. \<forall>j<n. M ! i ! j = M ! j ! i)"

lemma square_zeros: "square n (zeros n)"
  by (simp add: square_def zeros_def)

lemma symmetric_zeros: "symmetric n (zeros n)"
  by (simp add: symmetric_def zeros_def)

lemma array_set_nth:
  assumes "square n M" "a < n" "b < n" "i < n" "j < n"
  shows "array_set M a b c ! i ! j = (if i = a \<and> j = b then c else M ! i ! j)"
  using assms by (auto simp: array_set_def square_def nth_list_update)

lemma array_set_square:
  assumes "square n M"
  shows "square n (array_set M a b c)"
  using assms by (cases "a < n") (auto simp: array_set_def square_def nth_list_update)

lemma array_set_row: "i \<noteq> a \<Longrightarrow> array_set M a b c ! i = M ! i"
  by (simp add: array_set_def)

lemma array_set_id: "array_set M a b (M ! a ! b) = M"
  by (simp add: array_set_def)
lemma array_set_pair_nth:
  assumes "square n M" "a < n" "b < n" "i < n" "j < n"
  shows "array_set (array_set M a b c) b a c ! i ! j
         = (if (i = a \<and> j = b) \<or> (i = b \<and> j = a) then c else M ! i ! j)"
proof -
  have sq1: "square n (array_set M a b c)"
    using assms(1) by (rule array_set_square)
  have "array_set (array_set M a b c) b a c ! i ! j
      = (if i = b \<and> j = a then c else array_set M a b c ! i ! j)"
    by (rule array_set_nth [OF sq1 assms(3) assms(2) assms(4) assms(5)])
  moreover have "array_set M a b c ! i ! j = (if i = a \<and> j = b then c else M ! i ! j)"
    by (rule array_set_nth [OF assms])
  ultimately show ?thesis by presburger
qed

lemma array_set_pair_symmetric:
  assumes "square n M" "symmetric n M" "a < n" "b < n"
  shows "symmetric n (array_set (array_set M a b c) b a c)"
  unfolding symmetric_def
proof (intro allI impI)
  fix i j
  assume ij: "i < n" "j < n"
  from assms(2) ij have m: "M ! i ! j = M ! j ! i" by (simp add: symmetric_def)
  have "array_set (array_set M a b c) b a c ! i ! j
         = (if (i = a \<and> j = b) \<or> (i = b \<and> j = a) then c else M ! i ! j)"
    by (rule array_set_pair_nth [OF assms(1) assms(3) assms(4) ij])
  moreover have "array_set (array_set M a b c) b a c ! j ! i
         = (if (j = a \<and> i = b) \<or> (j = b \<and> i = a) then c else M ! j ! i)"
    by (rule array_set_pair_nth [OF assms(1) assms(3) assms(4) ij(2) ij(1)])
  ultimately show "array_set (array_set M a b c) b a c ! i ! j
      = array_set (array_set M a b c) b a c ! j ! i"
    using m by presburger
qed

lemma array_set_pair_square:
  "square n M \<Longrightarrow> square n (array_set (array_set M a b c) b a c)"
  by (simp add: array_set_square)

lemma array_set_pair_row:
  "i \<noteq> a \<Longrightarrow> i \<noteq> b \<Longrightarrow> array_set (array_set M a b c) b a c ! i = M ! i"
  by (simp add: array_set_row)

section \<open>What a cluster growth changes\<close>

text \<open>
  The matrix, the visited array and the label array of a state fit the graph order
  \<open>n\<close>.
\<close>

definition grow_shape :: "nat \<Rightarrow> grow_state \<Rightarrow> bool" where
  "grow_shape n st =
     (length (g_visited st) = n \<and> square n (g_array st)
      \<and> (\<forall>l. g_labels st = Some l \<longrightarrow> length l = n))"

lemma grow_H_cluster_neighbour_frame:
  assumes "grow_H_cluster_neighbour draws p u i st = (r, st')"
    and "square n (g_array st)" "u < n" "u XOR 2 ^ i < n"
  shows "g_visited st' = g_visited st \<and> g_labels st' = g_labels st
       \<and> g_size st' = g_size st \<and> g_error_flag st' = g_error_flag st
       \<and> square n (g_array st')
       \<and> (symmetric n (g_array st) \<longrightarrow> symmetric n (g_array st'))
       \<and> (\<forall>k. k \<noteq> u \<and> g_visited st ! k \<longrightarrow> g_array st' ! k = g_array st ! k)"
proof -
  let ?v = "u XOR 2 ^ i"
  let ?A = "g_array st"
  from assms(1) consider
      (same) "g_visited st' = g_visited st" "g_labels st' = g_labels st" "g_size st' = g_size st"
        "g_error_flag st' = g_error_flag st" "g_array st' = ?A"
    | (stored) c where "g_visited st' = g_visited st" "g_labels st' = g_labels st"
        "g_size st' = g_size st" "g_error_flag st' = g_error_flag st"
        "g_array st' = array_set (array_set ?A u ?v c) ?v u c" "\<not> g_visited st ! ?v"
    by (auto simp: grow_H_cluster_neighbour_def Let_def split: if_splits prod.splits)
  then show ?thesis
  proof cases
    case same
    with assms(2) show ?thesis by simp
  next
    case stored
    have "square n (g_array st')"
      unfolding stored(5) using assms(2) by (rule array_set_pair_square)
    moreover have "symmetric n ?A \<longrightarrow> symmetric n (g_array st')"
      unfolding stored(5) using array_set_pair_symmetric [OF assms(2) _ assms(3,4)] by blast
    moreover have "\<forall>k. k \<noteq> u \<and> g_visited st ! k \<longrightarrow> g_array st' ! k = ?A ! k"
      unfolding stored(5) using stored(6) by (auto intro: array_set_pair_row)
    ultimately show ?thesis using stored(1-4) by simp
  qed
qed
lemma grow_H_cluster_for_frame:
  assumes "square (2 ^ N) (g_array st)" "u < 2 ^ N" "set is \<subseteq> {..<N}"
  shows "case grow_H_cluster_for draws p u is st of (r, st') \<Rightarrow>
       g_visited st' = g_visited st \<and> g_labels st' = g_labels st
       \<and> g_size st' = g_size st \<and> g_error_flag st' = g_error_flag st
       \<and> square (2 ^ N) (g_array st')
       \<and> (symmetric (2 ^ N) (g_array st) \<longrightarrow> symmetric (2 ^ N) (g_array st'))
       \<and> (\<forall>k. k \<noteq> u \<and> g_visited st ! k \<longrightarrow> g_array st' ! k = g_array st ! k)"
proof -
  let ?P = "\<lambda>st'. g_visited st' = g_visited st \<and> g_labels st' = g_labels st
       \<and> g_size st' = g_size st \<and> g_error_flag st' = g_error_flag st
       \<and> square (2 ^ N) (g_array st')
       \<and> (symmetric (2 ^ N) (g_array st) \<longrightarrow> symmetric (2 ^ N) (g_array st'))
       \<and> (\<forall>k. k \<noteq> u \<and> g_visited st ! k \<longrightarrow> g_array st' ! k = g_array st ! k)"
  have step: "?P s2" if "?P s1" "i \<in> set is" "grow_H_cluster_neighbour draws p u i s1 = (r, s2)"
    for i s1 s2 r
  proof -
    from that(2) assms(3) have "i < N" by auto
    with assms(2) have v: "u XOR 2 ^ i < 2 ^ N" by (simp add: xor_bound)
    from that(1) have sq: "square (2 ^ N) (g_array s1)" by simp
    from grow_H_cluster_neighbour_frame [OF that(3) sq assms(2) v] that(1)
    show ?thesis by simp
  qed
  have "case grow_H_cluster_for draws p u is st of (r, st') \<Rightarrow> ?P st'"
  proof (rule grow_H_cluster_for_rule [where P = ?P], goal_cases)
    case 1
    from assms(1) show ?case by simp
  next
    case (2 i s1 s2)
    from step [OF 2] show ?case .
  next
    case (3 i s1 e s2)
    from step [OF 3] show ?case by simp
  next
    case (4 s1)
    then show ?case by simp
  qed
  then show ?thesis .
qed
text \<open>
  What a run of \<open>grow_H_cluster\<close> with cluster index \<open>ci\<close> has done between two
  states: sites stay visited, the rows of the sites that were visited before are as
  they were, symmetry is kept, the size has grown by the number of newly visited sites
  and exactly these carry the label \<open>ci\<close>.
\<close>

definition grow_frame :: "nat \<Rightarrow> nat \<Rightarrow> grow_state \<Rightarrow> grow_state \<Rightarrow> bool" where
  "grow_frame n ci st0 st =
     (grow_shape n st
      \<and> (\<forall>k<n. g_visited st0 ! k \<longrightarrow> g_visited st ! k)
      \<and> (\<forall>k<n. g_visited st0 ! k \<longrightarrow> g_array st ! k = g_array st0 ! k)
      \<and> (symmetric n (g_array st0) \<longrightarrow> symmetric n (g_array st))
      \<and> g_size st + unvisited (g_visited st) = g_size st0 + unvisited (g_visited st0)
      \<and> (g_labels st0 = None \<longrightarrow> g_labels st = None)
      \<and> (\<forall>l0. g_labels st0 = Some l0 \<longrightarrow>
            (\<exists>l. g_labels st = Some l
               \<and> (\<forall>k<n. l ! k = (if g_visited st ! k \<and> \<not> g_visited st0 ! k then ci else l0 ! k)))))"

lemma grow_frame_refl: "grow_shape n st \<Longrightarrow> grow_frame n ci st st"
  by (simp add: grow_frame_def)

lemma grow_frame_stack:
  "grow_frame n ci st0 (st\<lparr>g_stack := s, g_error_flag := e\<rparr>) = grow_frame n ci st0 st"
  by (simp add: grow_frame_def grow_shape_def)

lemma ul_add_small: "a + b < 18446744073709551616 \<Longrightarrow> ul_add a b = a + b"
  by (simp add: ul_add_def)

lemma grow_frame_visit:
  assumes f: "grow_frame n ci st0 st"
    and u: "u < n" "\<not> g_visited st ! u"
    and c: "g_size st0 + unvisited (g_visited st0) < 18446744073709551616"
  shows "grow_frame n ci st0
           (st\<lparr>g_visited := (g_visited st)[u := True],
               g_labels := map_option (\<lambda>l. l[u := ci]) (g_labels st),
               g_size := ul_add (g_size st) 1\<rparr>)"
proof -
  let ?st' = "st\<lparr>g_visited := (g_visited st)[u := True],
               g_labels := map_option (\<lambda>l. l[u := ci]) (g_labels st),
               g_size := ul_add (g_size st) 1\<rparr>"
  from f have len: "length (g_visited st) = n" by (simp add: grow_frame_def grow_shape_def)
  with u have unv: "Suc (unvisited ((g_visited st)[u := True])) = unvisited (g_visited st)"
    by (intro unvisited_update) auto
  from f have sz: "g_size st + unvisited (g_visited st) = g_size st0 + unvisited (g_visited st0)"
    by (simp add: grow_frame_def)
  with unv c have "g_size st + 1 < 18446744073709551616" by linarith
  then have a: "ul_add (g_size st) 1 = g_size st + 1" by (rule ul_add_small)
  have s': "ul_add (g_size st) 1 + unvisited ((g_visited st)[u := True])
      = g_size st0 + unvisited (g_visited st0)"
    unfolding a using unv sz by linarith
  from f u have u0: "\<not> g_visited st0 ! u" by (auto simp: grow_frame_def)
  have 1: "grow_shape n ?st'"
    using f len by (auto simp: grow_frame_def grow_shape_def)
  have 2: "\<forall>k<n. g_visited st0 ! k \<longrightarrow> g_visited ?st' ! k"
    using f len u by (auto simp: grow_frame_def nth_list_update)
  have 3: "\<forall>k<n. g_visited st0 ! k \<longrightarrow> g_array ?st' ! k = g_array st0 ! k"
    using f by (simp add: grow_frame_def)
  have 4: "symmetric n (g_array st0) \<longrightarrow> symmetric n (g_array ?st')"
    using f by (simp add: grow_frame_def)
  have 5: "g_size ?st' + unvisited (g_visited ?st') = g_size st0 + unvisited (g_visited st0)"
    using s' by simp
  have 6: "g_labels st0 = None \<longrightarrow> g_labels ?st' = None"
    using f by (simp add: grow_frame_def)
  have 7: "\<forall>l0. g_labels st0 = Some l0 \<longrightarrow>
            (\<exists>l. g_labels ?st' = Some l
               \<and> (\<forall>k<n. l ! k = (if g_visited ?st' ! k \<and> \<not> g_visited st0 ! k then ci else l0 ! k)))"
  proof (intro allI impI)
    fix l0
    assume "g_labels st0 = Some l0"
    with f obtain l where l: "g_labels st = Some l"
      "\<forall>k<n. l ! k = (if g_visited st ! k \<and> \<not> g_visited st0 ! k then ci else l0 ! k)"
      by (auto simp: grow_frame_def)
    from f l(1) have ll: "length l = n" by (simp add: grow_frame_def grow_shape_def)
    have "\<forall>k<n. l[u := ci] ! k
        = (if (g_visited st)[u := True] ! k \<and> \<not> g_visited st0 ! k then ci else l0 ! k)"
      using l(2) ll len u u0 by (auto simp: nth_list_update)
    with l(1) show "\<exists>l. g_labels ?st' = Some l
               \<and> (\<forall>k<n. l ! k = (if g_visited ?st' ! k \<and> \<not> g_visited st0 ! k then ci else l0 ! k))"
      by simp
  qed
  from 1 2 3 4 5 6 7 show ?thesis unfolding grow_frame_def by blast
qed
lemma grow_frame_for:
  assumes f: "grow_frame (2 ^ N) ci st0 st"
    and u: "u < 2 ^ N" "\<not> g_visited st0 ! u"
    and r: "grow_H_cluster_for draws p u [0..<N] st = (r, st')"
  shows "grow_frame (2 ^ N) ci st0 st'"
proof -
  from f have sq: "square (2 ^ N) (g_array st)" by (simp add: grow_frame_def grow_shape_def)
  have "set [0..<N] \<subseteq> {..<N}" by auto
  from grow_H_cluster_for_frame [OF sq u(1) this, of draws p] r
  have 1: "g_visited st' = g_visited st" "g_labels st' = g_labels st" "g_size st' = g_size st"
    "square (2 ^ N) (g_array st')"
    "symmetric (2 ^ N) (g_array st) \<longrightarrow> symmetric (2 ^ N) (g_array st')"
    "\<forall>k. k \<noteq> u \<and> g_visited st ! k \<longrightarrow> g_array st' ! k = g_array st ! k"
    by simp_all
  have rows: "\<forall>k<2 ^ N. g_visited st0 ! k \<longrightarrow> g_array st' ! k = g_array st0 ! k"
  proof (intro allI impI)
    fix k :: nat
    assume k: "k < 2 ^ N" "g_visited st0 ! k"
    with u(2) have "k \<noteq> u" by auto
    moreover from f k have "g_visited st ! k" by (simp add: grow_frame_def)
    ultimately have "g_array st' ! k = g_array st ! k" using 1(6) by simp
    also from f k have "\<dots> = g_array st0 ! k" by (simp add: grow_frame_def)
    finally show "g_array st' ! k = g_array st0 ! k" .
  qed
  from f have sym: "symmetric (2 ^ N) (g_array st0) \<longrightarrow> symmetric (2 ^ N) (g_array st')"
    using 1(5) by (simp add: grow_frame_def)
  from f 1(1,2,4) have sh: "grow_shape (2 ^ N) st'"
    by (simp add: grow_frame_def grow_shape_def)
  from f 1(1,2,3) sh rows sym show ?thesis
    by (simp add: grow_frame_def)
qed

lemma grow_H_cluster_body_frame:
  assumes f: "grow_frame (2 ^ N) ci st0 st"
    and c: "g_size st0 + unvisited (g_visited st0) < 18446744073709551616"
    and b: "grow_H_cluster_body draws p N ci st = (r, st')"
  shows "grow_frame (2 ^ N) ci st0 st'"
proof -
  obtain u s1 e1 where pop: "pop (g_stack st) (g_error_flag st) = (u, s1, e1)"
    by (cases "pop (g_stack st) (g_error_flag st)")
  from f have len: "length (g_visited st) = 2 ^ N" by (simp add: grow_frame_def grow_shape_def)
  show ?thesis
  proof (cases "e1 = - 1 \<or> 2 ^ N \<le> u \<or> g_visited st ! u")
    case True
    with b pop len have "st' = st\<lparr>g_stack := s1, g_error_flag := e1\<rparr>"
      by (auto simp: grow_H_cluster_body_def Let_def split: if_splits)
    with f show ?thesis by (simp add: grow_frame_stack)
  next
    case False
    let ?st1 = "st\<lparr>g_stack := s1, g_error_flag := e1\<rparr>"
    let ?st2 = "?st1\<lparr>g_visited := (g_visited ?st1)[u := True],
                     g_labels := map_option (\<lambda>l. l[u := ci]) (g_labels ?st1),
                     g_size := ul_add (g_size ?st1) 1\<rparr>"
    from False b pop len
    have r: "grow_H_cluster_for draws p u [0..<N] ?st2 = (r, st')"
      by (simp add: grow_H_cluster_body_def Let_def)
    from f have f1: "grow_frame (2 ^ N) ci st0 ?st1" by (simp add: grow_frame_stack)
    from False have u: "u < 2 ^ N" "\<not> g_visited ?st1 ! u" by simp_all
    from f u have u0: "\<not> g_visited st0 ! u" by (auto simp: grow_frame_def)
    have "grow_frame (2 ^ N) ci st0 ?st2"
      by (rule grow_frame_visit [OF f1 u c])
    from grow_frame_for [OF this u(1) u0 r] show ?thesis .
  qed
qed

lemma grow_H_cluster_result_frame:
  assumes sh: "length visited = 2 ^ N" "square (2 ^ N) A"
      "\<forall>l. labels = Some l \<longrightarrow> length l = 2 ^ N"
    and c: "size0 + unvisited visited < 18446744073709551616"
  shows "grow_frame (2 ^ N) ci
           \<lparr>g_stack = s, g_visited = visited, g_size = size0, g_array = A,
            g_labels = labels, g_error_flag = ef, g_pos = pos\<rparr>
           (snd (grow_H_cluster draws N p size0 s start_state A visited ef ci labels pos))"
proof -
  let ?st0 = "\<lparr>g_stack = s, g_visited = visited, g_size = size0, g_array = A,
               g_labels = labels, g_error_flag = ef, g_pos = pos\<rparr>"
  from sh have shape: "grow_shape (2 ^ N) ?st0" by (simp add: grow_shape_def)
  then have f0: "grow_frame (2 ^ N) ci ?st0 ?st0" by (rule grow_frame_refl)
  show ?thesis
  proof (cases "top_s s \<noteq> 0")
    case True
    with f0 show ?thesis by (simp add: grow_H_cluster_def)
  next
    case False
    let ?st1 = "?st0\<lparr>g_stack := fst (push s start_state)\<rparr>"
    have "?st1 = ?st0\<lparr>g_stack := fst (push s start_state), g_error_flag := ef\<rparr>" by simp
    with f0 have f1: "grow_frame (2 ^ N) ci ?st0 ?st1"
      by (metis grow_frame_stack)
    have "case grow_H_cluster_while draws p N ci ?st1 of (r, st') \<Rightarrow>
            grow_frame (2 ^ N) ci ?st0 st'"
    proof (rule grow_H_cluster_while_rule [where P = "grow_frame (2 ^ N) ci ?st0"], goal_cases)
      case 1
      from f1 show ?case .
    next
      case (2 st st')
      from c have "g_size ?st0 + unvisited (g_visited ?st0) < 18446744073709551616" by simp
      from grow_H_cluster_body_frame [OF 2(1) this 2(3)] show ?case .
    next
      case (3 st e st')
      from c have "g_size ?st0 + unvisited (g_visited ?st0) < 18446744073709551616" by simp
      from grow_H_cluster_body_frame [OF 3(1) this 3(3)] show ?case by simp
    next
      case (4 st)
      then show ?case by simp
    qed
    with False show ?thesis by (simp add: grow_H_cluster_def split_beta)
  qed
qed

section \<open>The entries on the stack\<close>

definition stack_list :: "stack \<Rightarrow> nat list" where
  "stack_list s = take (top_s s) (sites_s s)"

lemma stack_list_empty: "top_s s = 0 \<Longrightarrow> stack_list s = []"
  by (simp add: stack_list_def)

lemma stack_ok_setup: "stack_ok (setup_stack n)"
  by (simp add: stack_ok_def setup_stack_def)

lemma push_list:
  assumes "stack_ok s" "top_s s < length_s s"
  shows "stack_list (fst (push s v)) = stack_list s @ [v]"
    and "stack_ok (fst (push s v))" and "snd (push s v) = 0"
    and "length_s (fst (push s v)) = length_s s"
  using assms
  by (simp_all add: push_def stack_list_def stack_ok_def take_Suc_conv_app_nth)

lemma push_full:
  assumes "length_s s \<le> top_s s"
  shows "push s v = (s, 1)"
  using assms by (simp add: push_def)

lemma push_cases:
  assumes "stack_ok s"
  shows "(push s v = (s, 1) \<and> length_s s \<le> top_s s)
       \<or> (snd (push s v) = 0 \<and> stack_ok (fst (push s v))
          \<and> stack_list (fst (push s v)) = stack_list s @ [v]
          \<and> length_s (fst (push s v)) = length_s s)"
proof (cases "length_s s \<le> top_s s")
  case True
  then show ?thesis by (simp add: push_full)
next
  case False
  then have "top_s s < length_s s" by simp
  from push_list [OF assms this, of v] show ?thesis by simp
qed

lemma pop_list:
  assumes "stack_ok s" "0 < top_s s"
  shows "pop s e = (last (stack_list s), s\<lparr>top_s := top_s s - 1\<rparr>, e)"
    and "stack_list (s\<lparr>top_s := top_s s - 1\<rparr>) = butlast (stack_list s)"
    and "stack_ok (s\<lparr>top_s := top_s s - 1\<rparr>)"
    and "stack_list s \<noteq> []"
proof -
  from assms have t: "top_s s \<le> length (sites_s s)" "0 < top_s s"
    by (simp_all add: stack_ok_def)
  then have ne: "take (top_s s) (sites_s s) \<noteq> []" by auto
  have "last (take (top_s s) (sites_s s))
      = take (top_s s) (sites_s s) ! (length (take (top_s s) (sites_s s)) - 1)"
    using ne by (rule last_conv_nth)
  also from t have "length (take (top_s s) (sites_s s)) = top_s s" by simp
  also from t have "take (top_s s) (sites_s s) ! (top_s s - 1) = sites_s s ! (top_s s - 1)"
    by simp
  finally have "last (take (top_s s) (sites_s s)) = sites_s s ! (top_s s - 1)" .
  with assms(2) show "pop s e = (last (stack_list s), s\<lparr>top_s := top_s s - 1\<rparr>, e)"
    by (simp add: pop_def stack_list_def)
  from t show "stack_list (s\<lparr>top_s := top_s s - 1\<rparr>) = butlast (stack_list s)"
    by (simp add: stack_list_def butlast_take)
  from assms show "stack_ok (s\<lparr>top_s := top_s s - 1\<rparr>)"
    by (auto simp: stack_ok_def)
  from ne show "stack_list s \<noteq> []" by (simp add: stack_list_def)
qed

lemma in_butlast:
  "x \<in> set xs \<Longrightarrow> x \<noteq> last xs \<Longrightarrow> x \<in> set (butlast xs)"
  by (induction xs) (auto split: if_splits)

section \<open>Retained edges stay inside a cluster\<close>

text \<open>
  Every entry of the matrix that is not 0 joins two sites that are visited or still on
  the stack, and that carry or will carry the same label: a site on the stack that is
  not yet visited gets the current cluster index \<open>ci\<close> when it is popped.
\<close>

definition closed :: "nat \<Rightarrow> nat \<Rightarrow> bool list \<Rightarrow> nat list \<Rightarrow> nat list \<Rightarrow> matrix \<Rightarrow> bool" where
  "closed n ci vis l pending M =
     (\<forall>a<n. \<forall>b<n. M ! a ! b \<noteq> 0 \<longrightarrow>
        (vis ! a \<or> a \<in> set pending) \<and> (vis ! b \<or> b \<in> set pending)
        \<and> (if vis ! a then l ! a else ci) = (if vis ! b then l ! b else ci))"

lemma closed_zero:
  assumes "closed n ci vis l pending M" "square n M" "u < n" "v < n"
  shows "closed n ci vis l pending (array_set (array_set M u v 0) v u 0)"
  unfolding closed_def
proof (intro allI impI)
  fix a b
  assume ab: "a < n" "b < n" "array_set (array_set M u v 0) v u 0 ! a ! b \<noteq> 0"
  have "array_set (array_set M u v 0) v u 0 ! a ! b
      = (if (a = u \<and> b = v) \<or> (a = v \<and> b = u) then 0 else M ! a ! b)"
    by (rule array_set_pair_nth [OF assms(2-4) ab(1,2)])
  with ab(3) have "M ! a ! b \<noteq> 0" by presburger
  with assms(1) ab(1,2)
  show "(vis ! a \<or> a \<in> set pending) \<and> (vis ! b \<or> b \<in> set pending)
        \<and> (if vis ! a then l ! a else ci) = (if vis ! b then l ! b else ci)"
    unfolding closed_def by blast
qed

lemma closed_one:
  assumes "closed n ci vis l pending M" "square n M" "u < n" "v < n"
    and "vis ! u" "l ! u = ci" "\<not> vis ! v"
  shows "closed n ci vis l (pending @ [v]) (array_set (array_set M u v 1) v u 1)"
  unfolding closed_def
proof (intro allI impI)
  fix a b
  assume ab: "a < n" "b < n" "array_set (array_set M u v 1) v u 1 ! a ! b \<noteq> 0"
  have e: "array_set (array_set M u v 1) v u 1 ! a ! b
      = (if (a = u \<and> b = v) \<or> (a = v \<and> b = u) then 1 else M ! a ! b)"
    by (rule array_set_pair_nth [OF assms(2-4) ab(1,2)])
  show "(vis ! a \<or> a \<in> set (pending @ [v])) \<and> (vis ! b \<or> b \<in> set (pending @ [v]))
        \<and> (if vis ! a then l ! a else ci) = (if vis ! b then l ! b else ci)"
  proof (cases "(a = u \<and> b = v) \<or> (a = v \<and> b = u)")
    case True
    with assms(5-7) show ?thesis by auto
  next
    case False
    with e ab(3) have "M ! a ! b \<noteq> 0" by presburger
    with assms(1) ab(1,2)
    have "(vis ! a \<or> a \<in> set pending) \<and> (vis ! b \<or> b \<in> set pending)
        \<and> (if vis ! a then l ! a else ci) = (if vis ! b then l ! b else ci)"
      unfolding closed_def by blast
    then show ?thesis by auto
  qed
qed

lemma closed_pop_visited:
  assumes "closed n ci vis l pending M" "vis ! last pending"
  shows "closed n ci vis l (butlast pending) M"
  unfolding closed_def
proof (intro allI impI)
  fix a b
  assume ab: "a < n" "b < n" "M ! a ! b \<noteq> 0"
  with assms(1)
  have 1: "(vis ! a \<or> a \<in> set pending) \<and> (vis ! b \<or> b \<in> set pending)
        \<and> (if vis ! a then l ! a else ci) = (if vis ! b then l ! b else ci)"
    unfolding closed_def by blast
  have "vis ! x \<or> x \<in> set (butlast pending)" if "vis ! x \<or> x \<in> set pending" for x
  proof (cases "vis ! x")
    case True
    then show ?thesis by simp
  next
    case False
    with that have "x \<in> set pending" by simp
    moreover from False assms(2) have "x \<noteq> last pending" by auto
    ultimately show ?thesis by (simp add: in_butlast)
  qed
  with 1 show "(vis ! a \<or> a \<in> set (butlast pending)) \<and> (vis ! b \<or> b \<in> set (butlast pending))
        \<and> (if vis ! a then l ! a else ci) = (if vis ! b then l ! b else ci)"
    by blast
qed

lemma closed_pop_visit:
  assumes "closed n ci vis l pending M" "\<not> vis ! last pending"
    and "last pending < n" "length vis = n" "length l = n"
  shows "closed n ci (vis[last pending := True]) (l[last pending := ci]) (butlast pending) M"
  unfolding closed_def
proof (intro allI impI)
  let ?u = "last pending"
  fix a b
  assume ab: "a < n" "b < n" "M ! a ! b \<noteq> 0"
  with assms(1)
  have 1: "(vis ! a \<or> a \<in> set pending) \<and> (vis ! b \<or> b \<in> set pending)
        \<and> (if vis ! a then l ! a else ci) = (if vis ! b then l ! b else ci)"
    unfolding closed_def by blast
  have m: "vis[?u := True] ! x \<or> x \<in> set (butlast pending)"
    if "vis ! x \<or> x \<in> set pending" "x < n" for x
  proof (cases "x = ?u")
    case True
    with assms(3,4) show ?thesis by simp
  next
    case False
    with that assms(4) show ?thesis by (auto simp: in_butlast)
  qed
  have lab: "(if vis[?u := True] ! x then l[?u := ci] ! x else ci) = (if vis ! x then l ! x else ci)"
    if "x < n" for x
  proof (cases "x = ?u")
    case True
    with assms(2-5) show ?thesis by simp
  next
    case False
    then show ?thesis by simp
  qed
  from 1 m [of a] m [of b] lab [OF ab(1)] lab [OF ab(2)] ab(1,2)
  show "(vis[?u := True] ! a \<or> a \<in> set (butlast pending))
        \<and> (vis[?u := True] ! b \<or> b \<in> set (butlast pending))
        \<and> (if vis[?u := True] ! a then l[?u := ci] ! a else ci)
          = (if vis[?u := True] ! b then l[?u := ci] ! b else ci)"
    by presburger
qed

lemma closed_empty_ci:
  assumes "closed n ci vis l [] M"
  shows "closed n ci' vis l pending M"
  unfolding closed_def
proof (intro allI impI)
  fix a b
  assume ab: "a < n" "b < n" "M ! a ! b \<noteq> 0"
  note h = assms [unfolded closed_def, rule_format, OF ab(1) ab(2) ab(3)]
  from h have 1: "vis ! a" "vis ! b" by simp_all
  from h have "(if vis ! a then l ! a else ci) = (if vis ! b then l ! b else ci)"
    by (elim conjE)
  then have "l ! a = l ! b" unfolding if_P [OF 1(1)] if_P [OF 1(2)] .
  with 1(1,2) show "(vis ! a \<or> a \<in> set pending) \<and> (vis ! b \<or> b \<in> set pending)
        \<and> (if vis ! a then l ! a else ci') = (if vis ! b then l ! b else ci')"
    by simp
qed
definition grow_closed :: "nat \<Rightarrow> nat \<Rightarrow> grow_state \<Rightarrow> bool" where
  "grow_closed n ci st =
     (stack_ok (g_stack st) \<and> grow_shape n st
      \<and> (\<exists>l. g_labels st = Some l
             \<and> closed n ci (g_visited st) l (stack_list (g_stack st)) (g_array st)))"

lemma grow_H_cluster_neighbour_closed:
  assumes c: "grow_closed (2 ^ N) ci st"
    and u: "u < 2 ^ N" "i < N" "g_visited st ! u" "\<forall>l. g_labels st = Some l \<longrightarrow> l ! u = ci"
    and n: "grow_H_cluster_neighbour draws p u i st = (r, st')"
  shows "grow_closed (2 ^ N) ci st'"
proof -
  let ?v = "u XOR 2 ^ i"
  let ?n = "2 ^ N :: nat"
  from u have v: "?v < ?n" by (simp add: xor_bound)
  from c obtain l where l: "g_labels st = Some l"
    and cl: "closed ?n ci (g_visited st) l (stack_list (g_stack st)) (g_array st)"
    and ok: "stack_ok (g_stack st)" and sh: "grow_shape ?n st"
    by (auto simp: grow_closed_def)
  from l u(4) have lu: "l ! u = ci" by simp
  from sh have sq: "square ?n (g_array st)" by (simp add: grow_shape_def)
  from grow_H_cluster_neighbour_frame [OF n sq u(1) v]
  have fr: "g_visited st' = g_visited st" "g_labels st' = g_labels st" "square ?n (g_array st')"
    by simp_all
  with sh have sh': "grow_shape ?n st'" by (simp add: grow_shape_def)
  obtain s' rc where p: "push (g_stack st) ?v = (s', rc)"
    by (cases "push (g_stack st) ?v")
  have "stack_ok (g_stack st')
      \<and> closed ?n ci (g_visited st) l (stack_list (g_stack st')) (g_array st')"
  proof (cases "g_visited st ! ?v")
    case True
    with n have "st' = st" by (simp add: grow_H_cluster_neighbour_def)
    with ok cl show ?thesis by simp
  next
    case nv: False
    show ?thesis
    proof (cases "draws (g_pos st) < p")
      case False
      with nv n have "g_stack st' = g_stack st"
        "g_array st' = array_set (array_set (g_array st) u ?v 0) ?v u 0"
        by (auto simp: grow_H_cluster_neighbour_def Let_def)
      with ok closed_zero [OF cl sq u(1) v] show ?thesis by simp
    next
      case True
      from push_cases [OF ok, of ?v] show ?thesis
      proof
        assume "push (g_stack st) ?v = (g_stack st, 1) \<and> length_s (g_stack st) \<le> top_s (g_stack st)"
        with nv True n have "g_stack st' = g_stack st" "g_array st' = g_array st"
          by (auto simp: grow_H_cluster_neighbour_def Let_def)
        with ok cl show ?thesis by simp
      next
        assume a: "snd (push (g_stack st) ?v) = 0 \<and> stack_ok (fst (push (g_stack st) ?v))
          \<and> stack_list (fst (push (g_stack st) ?v)) = stack_list (g_stack st) @ [?v]
          \<and> length_s (fst (push (g_stack st) ?v)) = length_s (g_stack st)"
        with p have rc: "rc = 0" "stack_ok s'" "stack_list s' = stack_list (g_stack st) @ [?v]"
          by simp_all
        from nv True n p rc(1) have "g_stack st' = s'"
          "g_array st' = array_set (array_set (g_array st) u ?v 1) ?v u 1"
          by (auto simp: grow_H_cluster_neighbour_def Let_def)
        with rc closed_one [OF cl sq u(1) v u(3) lu nv] show ?thesis by simp
      qed
    qed
  qed
  with fr l sh' show ?thesis by (simp add: grow_closed_def)
qed

lemma grow_H_cluster_for_closed:
  assumes c: "grow_closed (2 ^ N) ci st"
    and u: "u < 2 ^ N" "g_visited st ! u" "\<forall>l. g_labels st = Some l \<longrightarrow> l ! u = ci"
  shows "grow_closed (2 ^ N) ci (snd (grow_H_cluster_for draws p u [0..<N] st))"
proof -
  let ?P = "\<lambda>s. grow_closed (2 ^ N) ci s \<and> g_visited s = g_visited st \<and> g_labels s = g_labels st"
  have step: "?P s2" if "?P s1" "i \<in> set [0..<N]"
    "grow_H_cluster_neighbour draws p u i s1 = (r, s2)" for i s1 s2 r
  proof -
    from that(2) have i: "i < N" by simp
    from that(1) u have u1: "g_visited s1 ! u" "\<forall>l. g_labels s1 = Some l \<longrightarrow> l ! u = ci"
      by simp_all
    from that(1) have c1: "grow_closed (2 ^ N) ci s1" by simp
    from grow_H_cluster_neighbour_closed [OF c1 u(1) i u1 that(3)]
    have "grow_closed (2 ^ N) ci s2" .
    moreover from c1 have "square (2 ^ N) (g_array s1)"
      by (simp add: grow_closed_def grow_shape_def)
    from grow_H_cluster_neighbour_frame [OF that(3) this u(1) xor_bound [OF u(1) i]] that(1)
    have "g_visited s2 = g_visited st" "g_labels s2 = g_labels st" by simp_all
    ultimately show ?thesis by simp
  qed
  have "case grow_H_cluster_for draws p u [0..<N] st of (r, st') \<Rightarrow> ?P st'"
  proof (rule grow_H_cluster_for_rule [where P = ?P], goal_cases)
    case 1
    from c show ?case by simp
  next
    case (2 i s1 s2)
    from step [OF 2] show ?case .
  next
    case (3 i s1 e s2)
    from step [OF 3] show ?case by simp
  next
    case (4 s1)
    then show ?case by simp
  qed
  then show ?thesis by (simp add: split_beta)
qed
lemma grow_H_cluster_body_closed:
  assumes c: "grow_closed (2 ^ N) ci st" and t: "0 < top_s (g_stack st)"
    and b: "grow_H_cluster_body draws p N ci st = (None, st')"
  shows "grow_closed (2 ^ N) ci st'"
proof -
  let ?n = "2 ^ N :: nat"
  let ?u = "last (stack_list (g_stack st))"
  let ?s1 = "(g_stack st)\<lparr>top_s := top_s (g_stack st) - 1\<rparr>"
  from c obtain l where l: "g_labels st = Some l"
    and cl: "closed ?n ci (g_visited st) l (stack_list (g_stack st)) (g_array st)"
    and ok: "stack_ok (g_stack st)" and sh: "grow_shape ?n st"
    by (auto simp: grow_closed_def)
  from sh l have len: "length (g_visited st) = ?n" "length l = ?n"
    by (simp_all add: grow_shape_def)
  note pl = pop_list [OF ok t]
  from pl(1) have pop: "pop (g_stack st) (g_error_flag st) = (?u, ?s1, g_error_flag st)" .
  from b pop len have e: "g_error_flag st \<noteq> - 1" "?u < ?n"
    by (auto simp: grow_H_cluster_body_def Let_def split: if_splits)
  let ?st1 = "st\<lparr>g_stack := ?s1, g_error_flag := g_error_flag st\<rparr>"
  show ?thesis
  proof (cases "g_visited st ! ?u")
    case True
    with b pop e len have f: "g_stack st' = ?s1" "g_visited st' = g_visited st"
      "g_labels st' = g_labels st" "g_array st' = g_array st"
      by (auto simp: grow_H_cluster_body_def Let_def)
    from closed_pop_visited [OF cl True] pl(2)
    have "closed ?n ci (g_visited st) l (stack_list ?s1) (g_array st)" by simp
    with l pl(3) sh f show ?thesis
      by (simp add: grow_closed_def grow_shape_def)
  next
    case False
    let ?st2 = "?st1\<lparr>g_visited := (g_visited ?st1)[?u := True],
                     g_labels := map_option (\<lambda>l. l[?u := ci]) (g_labels ?st1),
                     g_size := ul_add (g_size ?st1) 1\<rparr>"
    from False b pop e len
    have r: "grow_H_cluster_for draws p ?u [0..<N] ?st2 = (None, st')"
      by (simp add: grow_H_cluster_body_def Let_def)
    from closed_pop_visit [OF cl False e(2) len] pl(2)
    have "closed ?n ci ((g_visited st)[?u := True]) (l[?u := ci]) (stack_list ?s1) (g_array st)"
      by simp
    with l pl(3) sh len have c2: "grow_closed ?n ci ?st2"
      by (simp add: grow_closed_def grow_shape_def)
    from e(2) len l have u2: "g_visited ?st2 ! ?u" "\<forall>l. g_labels ?st2 = Some l \<longrightarrow> l ! ?u = ci"
      by auto
    from grow_H_cluster_for_closed [OF c2 e(2) u2, of draws p] r show ?thesis by simp
  qed
qed

lemma grow_H_cluster_result_closed:
  assumes sh: "length visited = 2 ^ N" "square (2 ^ N) A" "length l = 2 ^ N"
    and ok: "stack_ok s"
    and cl: "closed (2 ^ N) ci0 visited l [] A"
    and g: "grow_H_cluster draws N p size0 s start_state A visited ef ci (Some l) pos = (None, st')"
  shows "stack_ok (g_stack st')
       \<and> (\<exists>l'. g_labels st' = Some l' \<and> closed (2 ^ N) ci' (g_visited st') l' [] (g_array st'))"
proof -
  let ?n = "2 ^ N :: nat"
  let ?st0 = "\<lparr>g_stack = fst (push s start_state), g_visited = visited, g_size = size0,
               g_array = A, g_labels = Some l, g_error_flag = ef, g_pos = pos\<rparr>"
  from g have t: "top_s s = 0" by (auto simp: grow_H_cluster_def Let_def split: if_splits)
  with g have w: "grow_H_cluster_while draws p N ci ?st0 = (None, st')"
    by (simp add: grow_H_cluster_def Let_def)
  from push_cases [OF ok, of start_state] have ok1: "stack_ok (fst (push s start_state))"
    using ok by auto
  from closed_empty_ci [OF cl]
  have "closed ?n ci visited l (stack_list (fst (push s start_state))) A" .
  with ok1 sh have c0: "grow_closed ?n ci ?st0"
    by (simp add: grow_closed_def grow_shape_def)
  have "case grow_H_cluster_while draws p N ci ?st0 of (r, st1) \<Rightarrow>
          r = None \<longrightarrow> grow_closed ?n ci st1 \<and> top_s (g_stack st1) = 0"
  proof (rule grow_H_cluster_while_rule [where P = "grow_closed ?n ci"], goal_cases)
    case 1
    from c0 show ?case .
  next
    case (2 st1 st2)
    from grow_H_cluster_body_closed [OF 2] show ?case .
  next
    case (3 st1 e st2)
    show ?case by simp
  next
    case (4 st1)
    then show ?case by simp
  qed
  with w have gc: "grow_closed ?n ci st'" "top_s (g_stack st') = 0" by simp_all
  then obtain l' where l': "g_labels st' = Some l'"
    "closed ?n ci (g_visited st') l' [] (g_array st')"
    by (auto simp: grow_closed_def stack_list_empty)
  from gc(1) have "stack_ok (g_stack st')" by (simp add: grow_closed_def)
  with closed_empty_ci [OF l'(2)] l'(1) show ?thesis by blast
qed

section \<open>Symmetry of the returned matrices\<close>

lemma intpower_2:
  assumes "N < 64"
  shows "intpower 2 N = 2 ^ N"
proof -
  from assms have "(2::nat) ^ N < 2 ^ 64" by (rule power_strict_increasing) simp
  then show ?thesis by (simp add: intpower_def)
qed

lemma reset_visited_replicate: "reset_visited (replicate n False) n = replicate n False"
  by (simp add: reset_visited_def)

lemma unvisited_le_length: "unvisited xs \<le> length xs"
  by (simp add: unvisited_def)

lemma order_small:
  assumes "N < 64"
  shows "(2::nat) ^ N < 18446744073709551615"
proof -
  from assms have "N \<le> 63" by simp
  then have "(2::nat) ^ N \<le> 2 ^ 63" by (rule power_increasing) simp
  then show ?thesis by simp
qed

lemma hypercube_H_row_symmetric:
  assumes "square (2 ^ N) M" "symmetric (2 ^ N) M" "row < 2 ^ N" "set is \<subseteq> {..<N}"
  shows "square (2 ^ N) (fst (hypercube_H_row draws p row is (M, pos)))
       \<and> symmetric (2 ^ N) (fst (hypercube_H_row draws p row is (M, pos)))"
  using assms
proof (induction "is" arbitrary: M pos)
  case Nil
  then show ?case by simp
next
  case (Cons i "is")
  let ?col = "row XOR 2 ^ i"
  from Cons.prems have i: "i < N" and sub: "set is \<subseteq> {..<N}" by auto
  from xor_bound [OF Cons.prems(3) i] have col: "?col < 2 ^ N" .
  have sq: "square (2 ^ N) (array_set (array_set M row ?col c) ?col row c)" for c
    by (rule array_set_pair_square [OF Cons.prems(1)])
  have sy: "symmetric (2 ^ N) (array_set (array_set M row ?col c) ?col row c)" for c
    by (rule array_set_pair_symmetric [OF Cons.prems(1) Cons.prems(2) Cons.prems(3) col])
  show ?case
  proof (cases "draws pos < p")
    case True
    from Cons.IH [OF sq [of 1] sy [of 1] Cons.prems(3) sub, of "pos + 1"] True
    show ?thesis by (simp add: Let_def)
  next
    case False
    from Cons.IH [OF sq [of 0] sy [of 0] Cons.prems(3) sub, of "pos + 1"] False
    show ?thesis by (simp add: Let_def)
  qed
qed

lemma hypercube_H_rows_symmetric:
  assumes "square (2 ^ N) M" "symmetric (2 ^ N) M" "set rows \<subseteq> {..<2 ^ N}"
  shows "square (2 ^ N) (fst (hypercube_H_rows draws p N rows (M, pos)))
       \<and> symmetric (2 ^ N) (fst (hypercube_H_rows draws p N rows (M, pos)))"
  using assms
proof (induction rows arbitrary: M pos)
  case Nil
  then show ?case by simp
next
  case (Cons row rows)
  from Cons.prems have row: "row < 2 ^ N" and sub: "set rows \<subseteq> {..<2 ^ N}" by auto
  obtain M' pos' where r: "hypercube_H_row draws p row [0..<N] (M, pos) = (M', pos')"
    by (cases "hypercube_H_row draws p row [0..<N] (M, pos)")
  have "set [0..<N] \<subseteq> {..<N}" by auto
  from hypercube_H_row_symmetric [OF Cons.prems(1) Cons.prems(2) row this, of draws p pos] r
  have "square (2 ^ N) M'" "symmetric (2 ^ N) M'" by simp_all
  from Cons.IH [OF this sub, of pos'] r show ?case by simp
qed

lemma hypercube_H_symmetric:
  assumes "hypercube_H draws N p = Inr M"
  shows "square (2 ^ N) M \<and> symmetric (2 ^ N) M"
proof -
  from assms have c: "check_args N 1 p"
    by (auto simp: hypercube_H_def split: if_splits)
  then have N: "N < 64" by (simp add: check_args_def)
  have s: "set [0..<2 ^ N] \<subseteq> {..<2 ^ N :: nat}" by auto
  from assms c have "M = fst (hypercube_H_rows draws p N [0..<2 ^ N] (zeros (2 ^ N), 0))"
    by (simp add: hypercube_H_def Let_def intpower_2 [OF N])
  with hypercube_H_rows_symmetric [OF square_zeros symmetric_zeros s, where draws = draws and p = p and pos = 0]
  show ?thesis by simp
qed

lemma hypercube_H_SC_symmetric:
  assumes "hypercube_H_SC draws N p = Inr (M, sz)"
  shows "square (2 ^ N) M \<and> symmetric (2 ^ N) M"
proof -
  let ?n = "2 ^ N :: nat"
  from assms have c: "check_args N 1 p"
    by (auto simp: hypercube_H_SC_def split: if_splits)
  then have N: "N < 64" by (simp add: check_args_def)
  let ?g = "grow_H_cluster draws N p 0 (setup_stack ?n) 0 (zeros ?n) (replicate ?n False) 0 0 None 0"
  from assms c have M: "M = g_array (snd ?g)"
    by (auto simp: hypercube_H_SC_def Let_def intpower_2 [OF N] reset_visited_replicate
        split: prod.splits option.splits)
  have "0 + unvisited (replicate ?n False) < 18446744073709551616"
    using order_small [OF N] by (simp add: unvisited_replicate)
  from grow_H_cluster_result_frame [OF _ square_zeros _ this, where labels = None
      and draws = draws and p = p and s = "setup_stack ?n" and ci = 0 and ef = 0 and pos = 0
      and start_state = 0]
  have "grow_frame ?n 0
          \<lparr>g_stack = setup_stack ?n, g_visited = replicate ?n False, g_size = 0,
           g_array = zeros ?n, g_labels = None, g_error_flag = 0, g_pos = 0\<rparr> (snd ?g)"
    by simp
  then show ?thesis unfolding M
    by (simp add: grow_frame_def grow_shape_def symmetric_zeros)
qed

section \<open>The full cluster at \<open>p = 1\<close>\<close>

text \<open>
  Claim C6. In dimension 3 with \<open>p = 1\<close> the traversal from site 0 returns the size
  8, and \<open>hypercube_H\<close> has three ones in every row. In dimension 4 the traversal
  from site 0 on the stack of the drivers stops at the failed push: it returns 0, with 5
  of the 16 sites not visited, where the claim says that it visits all 16.
\<close>

theorem full_cluster_not_reached_at_order_16:
  "hypercube_clusters (\<lambda>k. 0) 3 1 1 = Inr [8]
   \<and> map_sum id (map sum_list) (hypercube_H (\<lambda>k. 0) 3 1) = Inr [3, 3, 3, 3, 3, 3, 3, 3]
   \<and> map_sum id (map sum_list) (hypercube_H (\<lambda>k. 0) 4 1) = Inr (replicate 16 4)
   \<and> returned (fst (DFS_hypercube (\<lambda>k. 0) (setup_stack (intpower 2 4))
          (reset_visited (replicate (intpower 2 4) False) (intpower 2 4)) 1 4 0 0 0)) = 0
   \<and> unvisited (d_visited (snd (DFS_hypercube (\<lambda>k. 0) (setup_stack (intpower 2 4))
          (reset_visited (replicate (intpower 2 4) False) (intpower 2 4)) 1 4 0 0 0))) = 5
   \<and> hypercube_clusters (\<lambda>k. 0) 4 1 1 \<noteq> Inr [16]"
  by code_simp

section \<open>The enumeration loop of \<open>hypercube_H_LC\<close>\<close>

text \<open>
  \<open>hlc_next st g\<close> is the state of the enumeration after the statements that follow
  a call of \<open>grow_H_cluster\<close> which has returned in the state \<open>g\<close>.
\<close>

definition hlc_next :: "hlc_state \<Rightarrow> grow_state \<Rightarrow> hlc_state" where
  "hlc_next st g =
     (let cluster_size = g_size g;
          st1 = st\<lparr>h_stack := g_stack g, h_visited := g_visited g, h_array := g_array g,
                   h_labels := (case g_labels g of None \<Rightarrow> h_labels st | Some l \<Rightarrow> l),
                   h_error_flag := g_error_flag g, h_pos := g_pos g,
                   h_total_size := ul_add (h_total_size st) cluster_size\<rparr>;
          st2 = (if h_largest_cluster_size st1 < cluster_size
                 then st1\<lparr>h_largest_cluster_size := cluster_size,
                          h_largest_cluster_index := h_cluster_index st1\<rparr>
                 else st1)
      in st2\<lparr>h_cluster_index := ul_add (h_cluster_index st2) 1\<rparr>)"

lemma hypercube_H_LC_loop_visited:
  "h_visited st ! site \<Longrightarrow>
   hypercube_H_LC_loop ee draws N p NH (site # sites) st
     = hypercube_H_LC_loop ee draws N p NH sites st"
  by simp

lemma hypercube_H_LC_loop_fault:
  assumes "\<not> h_visited st ! site"
    and "grow_H_cluster draws N p 0 (h_stack st) site (h_array st) (h_visited st)
           (h_error_flag st) (h_cluster_index st) (Some (h_labels st)) (h_pos st) = (Some e, g)"
  shows "hypercube_H_LC_loop ee draws N p NH (site # sites) st = (Some (after_fault e), st)"
  using assms by simp

lemma hypercube_H_LC_loop_grown:
  assumes "\<not> h_visited st ! site"
    and "grow_H_cluster draws N p 0 (h_stack st) site (h_array st) (h_visited st)
           (h_error_flag st) (h_cluster_index st) (Some (h_labels st)) (h_pos st) = (None, g)"
  shows "hypercube_H_LC_loop ee draws N p NH (site # sites) st
       = (if ee \<and> ul_sub NH (h_total_size (hlc_next st g)) \<le> h_largest_cluster_size (hlc_next st g)
          then (None, hlc_next st g)
          else hypercube_H_LC_loop ee draws N p NH sites (hlc_next st g))"
  using assms by (simp add: hlc_next_def Let_def)

text \<open>
  What holds between two cluster growths: the stack is empty and well formed, the arrays
  have the order of the graph, the matrix is symmetric and joins visited sites of one
  label only, a site has a label below the running index exactly when it is visited,
  the sizes add up to the number of visited sites, and the index of the largest cluster
  is an index that has been given out.
\<close>

definition hlc_inv :: "nat \<Rightarrow> nat \<Rightarrow> hlc_state \<Rightarrow> bool" where
  "hlc_inv n m st =
     (stack_ok (h_stack st)
      \<and> length (h_visited st) = n \<and> length (h_labels st) = n
      \<and> square n (h_array st) \<and> symmetric n (h_array st)
      \<and> closed n 0 (h_visited st) (h_labels st) [] (h_array st)
      \<and> (\<forall>k<n. h_visited st ! k \<longrightarrow> h_labels st ! k < h_cluster_index st)
      \<and> (\<forall>k<n. \<not> h_visited st ! k \<longrightarrow> h_labels st ! k = ULONG_MAX)
      \<and> h_total_size st + unvisited (h_visited st) = n
      \<and> h_cluster_index st + m \<le> n
      \<and> h_largest_cluster_size st \<le> h_total_size st
      \<and> (h_largest_cluster_index st < h_cluster_index st
         \<or> (h_largest_cluster_index st = 0 \<and> h_largest_cluster_size st = 0)))"

lemma hlc_inv_mono: "hlc_inv n m st \<Longrightarrow> m' \<le> m \<Longrightarrow> hlc_inv n m' st"
  by (simp add: hlc_inv_def)

text \<open>The facts about one cluster growth that the enumeration uses.\<close>

lemma grow_H_cluster_summary:
  assumes inv: "hlc_inv (2 ^ N) m st" and N: "N < 64"
    and g: "grow_H_cluster draws N p 0 (h_stack st) site (h_array st) (h_visited st)
           (h_error_flag st) (h_cluster_index st) (Some (h_labels st)) (h_pos st) = (None, g)"
  shows "stack_ok (g_stack g)"
    and "length (g_visited g) = 2 ^ N"
    and "square (2 ^ N) (g_array g)"
    and "symmetric (2 ^ N) (g_array g)"
    and "\<exists>l. g_labels g = Some l \<and> length l = 2 ^ N
           \<and> closed (2 ^ N) 0 (g_visited g) l [] (g_array g)
           \<and> (\<forall>k<2 ^ N. l ! k = (if g_visited g ! k \<and> \<not> h_visited st ! k
                                  then h_cluster_index st else h_labels st ! k))"
    and "\<forall>k<2 ^ N. h_visited st ! k \<longrightarrow> g_visited g ! k"
    and "\<forall>k<2 ^ N. h_visited st ! k \<longrightarrow> g_array g ! k = h_array st ! k"
    and "g_size g + unvisited (g_visited g) = unvisited (h_visited st)"
proof -
  let ?n = "2 ^ N :: nat"
  let ?st0 = "\<lparr>g_stack = h_stack st, g_visited = h_visited st, g_size = 0,
               g_array = h_array st, g_labels = Some (h_labels st),
               g_error_flag = h_error_flag st, g_pos = h_pos st\<rparr>"
  from inv have i: "stack_ok (h_stack st)" "length (h_visited st) = ?n"
    "length (h_labels st) = ?n" "square ?n (h_array st)" "symmetric ?n (h_array st)"
    "closed ?n 0 (h_visited st) (h_labels st) [] (h_array st)"
    by (simp_all add: hlc_inv_def)
  have "unvisited (h_visited st) \<le> ?n" using unvisited_le_length [of "h_visited st"] i(2) by simp
  with order_small [OF N] have c: "0 + unvisited (h_visited st) < 18446744073709551616" by simp
  have l: "\<forall>l. Some (h_labels st) = Some l \<longrightarrow> length l = ?n" using i(3) by simp
  from grow_H_cluster_result_frame [OF i(2) i(4) l c, where draws = draws and p = p
      and s = "h_stack st" and start_state = site and ef = "h_error_flag st"
      and ci = "h_cluster_index st" and pos = "h_pos st"] g
  have f: "grow_frame ?n (h_cluster_index st) ?st0 g" by simp
  from grow_H_cluster_result_closed [OF i(2) i(4) i(3) i(1) i(6) g, where ci' = 0]
  obtain l' where c': "stack_ok (g_stack g)" "g_labels g = Some l'"
    "closed ?n 0 (g_visited g) l' [] (g_array g)" by blast
  from c'(1) show "stack_ok (g_stack g)" .
  from f show "length (g_visited g) = ?n" by (simp add: grow_frame_def grow_shape_def)
  from f show "square ?n (g_array g)" by (simp add: grow_frame_def grow_shape_def)
  from f i(5) show "symmetric ?n (g_array g)" by (simp add: grow_frame_def)
  from f show "\<forall>k<?n. h_visited st ! k \<longrightarrow> g_visited g ! k" by (simp add: grow_frame_def)
  from f show "\<forall>k<?n. h_visited st ! k \<longrightarrow> g_array g ! k = h_array st ! k"
    by (simp add: grow_frame_def)
  from f show "g_size g + unvisited (g_visited g) = unvisited (h_visited st)"
    by (simp add: grow_frame_def)
  from f c'(2) have "length l' = ?n"
    "\<forall>k<?n. l' ! k = (if g_visited g ! k \<and> \<not> h_visited st ! k
                         then h_cluster_index st else h_labels st ! k)"
    by (simp_all add: grow_frame_def grow_shape_def)
  with c'(2,3) show "\<exists>l. g_labels g = Some l \<and> length l = ?n
           \<and> closed ?n 0 (g_visited g) l [] (g_array g)
           \<and> (\<forall>k<?n. l ! k = (if g_visited g ! k \<and> \<not> h_visited st ! k
                                  then h_cluster_index st else h_labels st ! k))"
    by blast
qed
lemma hlc_next_fields:
  assumes "g_labels g = Some l"
  shows "h_stack (hlc_next st g) = g_stack g"
    and "h_visited (hlc_next st g) = g_visited g"
    and "h_array (hlc_next st g) = g_array g"
    and "h_labels (hlc_next st g) = l"
    and "h_total_size (hlc_next st g) = ul_add (h_total_size st) (g_size g)"
    and "h_cluster_index (hlc_next st g) = ul_add (h_cluster_index st) 1"
    and "h_largest_cluster_size (hlc_next st g)
         = (if h_largest_cluster_size st < g_size g then g_size g else h_largest_cluster_size st)"
    and "h_largest_cluster_index (hlc_next st g)
         = (if h_largest_cluster_size st < g_size g then h_cluster_index st
            else h_largest_cluster_index st)"
  using assms by (simp_all add: hlc_next_def Let_def)

lemma hlc_inv_next:
  assumes inv: "hlc_inv (2 ^ N) (Suc m) st" and N: "N < 64"
    and g: "grow_H_cluster draws N p 0 (h_stack st) site (h_array st) (h_visited st)
           (h_error_flag st) (h_cluster_index st) (Some (h_labels st)) (h_pos st) = (None, g)"
  shows "hlc_inv (2 ^ N) m (hlc_next st g)"
proof -
  let ?n = "2 ^ N :: nat"
  let ?st' = "hlc_next st g"
  note s = grow_H_cluster_summary [OF inv N g]
  from s(5) obtain l where l: "g_labels g = Some l" "length l = ?n"
    "closed ?n 0 (g_visited g) l [] (g_array g)"
    "\<forall>k<?n. l ! k = (if g_visited g ! k \<and> \<not> h_visited st ! k
                        then h_cluster_index st else h_labels st ! k)"
    by blast
  note f = hlc_next_fields [OF l(1), of st]
  from inv have i: "\<forall>k<?n. h_visited st ! k \<longrightarrow> h_labels st ! k < h_cluster_index st"
    "\<forall>k<?n. \<not> h_visited st ! k \<longrightarrow> h_labels st ! k = ULONG_MAX"
    "h_total_size st + unvisited (h_visited st) = ?n"
    "h_cluster_index st + Suc m \<le> ?n"
    "h_largest_cluster_size st \<le> h_total_size st"
    "h_largest_cluster_index st < h_cluster_index st
       \<or> (h_largest_cluster_index st = 0 \<and> h_largest_cluster_size st = 0)"
    by (simp_all add: hlc_inv_def)
  have small: "?n < 18446744073709551615" by (rule order_small [OF N])
  from i(4) small have ci1: "ul_add (h_cluster_index st) 1 = h_cluster_index st + 1"
    by (intro ul_add_small) simp
  then have ci: "ul_add (h_cluster_index st) (Suc 0) = Suc (h_cluster_index st)"
    "ul_add (h_cluster_index st) 1 = Suc (h_cluster_index st)" by simp_all
  from i(3) s(8) have tot: "h_total_size st + g_size g + unvisited (g_visited g) = ?n" by simp
  with small have ts: "ul_add (h_total_size st) (g_size g) = h_total_size st + g_size g"
    by (intro ul_add_small) simp
  have 1: "\<forall>k<?n. h_visited ?st' ! k \<longrightarrow> h_labels ?st' ! k < h_cluster_index ?st'"
  proof (intro allI impI)
    fix k
    assume k: "k < ?n" "h_visited ?st' ! k"
    then have v: "g_visited g ! k" by (simp add: f)
    from l(4) k(1) have e: "l ! k = (if g_visited g ! k \<and> \<not> h_visited st ! k
                        then h_cluster_index st else h_labels st ! k)" by simp
    show "h_labels ?st' ! k < h_cluster_index ?st'"
    proof (cases "h_visited st ! k")
      case True
      with i(1) k(1) have "h_labels st ! k < h_cluster_index st" by simp
      with e True show ?thesis by (simp add: f ci)
    next
      case False
      with e v show ?thesis by (simp add: f ci)
    qed
  qed
  have 2: "\<forall>k<?n. \<not> h_visited ?st' ! k \<longrightarrow> h_labels ?st' ! k = ULONG_MAX"
  proof (intro allI impI)
    fix k
    assume k: "k < ?n" "\<not> h_visited ?st' ! k"
    then have v: "\<not> g_visited g ! k" by (simp add: f)
    with s(6) k(1) have v0: "\<not> h_visited st ! k" by blast
    from l(4) k(1) v have "l ! k = h_labels st ! k" by simp
    with i(2) k(1) v0 show "h_labels ?st' ! k = ULONG_MAX" by (simp add: f)
  qed
  have 3: "h_total_size ?st' + unvisited (h_visited ?st') = ?n"
    using tot by (simp add: f ts)
  have 4: "h_cluster_index ?st' + m \<le> ?n" using i(4) by (simp add: f ci)
  have 5: "h_largest_cluster_size ?st' \<le> h_total_size ?st'"
    using i(5) by (simp add: f ts)
  have 6: "h_largest_cluster_index ?st' < h_cluster_index ?st'
       \<or> (h_largest_cluster_index ?st' = 0 \<and> h_largest_cluster_size ?st' = 0)"
    using i(6) by (auto simp: f ci)
  from s(1-4) l(2,3) 1 2 3 4 5 6 show ?thesis
    unfolding hlc_inv_def by (simp add: f)
qed

lemma hypercube_H_LC_loop_inv:
  assumes "hlc_inv (2 ^ N) (length sites) st" "N < 64"
    and "hypercube_H_LC_loop ee draws N p NH sites st = (None, st')"
  shows "hlc_inv (2 ^ N) 0 st'"
  using assms
proof (induction sites arbitrary: st)
  case Nil
  then show ?case by simp
next
  case (Cons site sites)
  from Cons.prems(1) have inv: "hlc_inv (2 ^ N) (Suc (length sites)) st" by simp
  show ?case
  proof (cases "h_visited st ! site")
    case True
    from hlc_inv_mono [OF inv, of "length sites"]
    have "hlc_inv (2 ^ N) (length sites) st" by simp
    from Cons.IH [OF this Cons.prems(2)] Cons.prems(3) True show ?thesis by simp
  next
    case False
    obtain r g where g: "grow_H_cluster draws N p 0 (h_stack st) site (h_array st) (h_visited st)
           (h_error_flag st) (h_cluster_index st) (Some (h_labels st)) (h_pos st) = (r, g)"
      by (cases "grow_H_cluster draws N p 0 (h_stack st) site (h_array st) (h_visited st)
           (h_error_flag st) (h_cluster_index st) (Some (h_labels st)) (h_pos st)")
    show ?thesis
    proof (cases r)
      case (Some e)
      with g have "hypercube_H_LC_loop ee draws N p NH (site # sites) st = (Some (after_fault e), st)"
        using hypercube_H_LC_loop_fault [OF False] by simp
      with Cons.prems(3) show ?thesis by simp
    next
      case None
      with g have g': "grow_H_cluster draws N p 0 (h_stack st) site (h_array st) (h_visited st)
           (h_error_flag st) (h_cluster_index st) (Some (h_labels st)) (h_pos st) = (None, g)"
        by simp
      note n = hlc_inv_next [OF inv Cons.prems(2) g']
      note e = hypercube_H_LC_loop_grown [OF False g', of ee NH sites]
      show ?thesis
      proof (cases "ee \<and> ul_sub NH (h_total_size (hlc_next st g))
                      \<le> h_largest_cluster_size (hlc_next st g)")
        case True
        with e Cons.prems(3) have "st' = hlc_next st g" by simp
        with hlc_inv_mono [OF n, of 0] show ?thesis by simp
      next
        case False
        with e Cons.prems(3)
        have "hypercube_H_LC_loop ee draws N p NH sites (hlc_next st g) = (None, st')" by simp
        from Cons.IH [OF n Cons.prems(2) this] show ?thesis .
      qed
    qed
  qed
qed

lemma closed_zeros: "closed n ci vis l pending (zeros n)"
  by (simp add: closed_def zeros_def)

lemma hypercube_H_LC_enumerate_inv:
  assumes "N < 64" "hypercube_H_LC_enumerate ee draws N p = (None, st)"
  shows "hlc_inv (2 ^ N) 0 st"
proof -
  let ?n = "2 ^ N :: nat"
  let ?st0 = "\<lparr>h_stack = setup_stack ?n,
         h_visited = replicate ?n False,
         h_array = zeros ?n,
         h_labels = replicate ?n ULONG_MAX,
         h_largest_cluster_index = 0,
         h_largest_cluster_size = 0,
         h_cluster_index = 0,
         h_total_size = 0,
         h_error_flag = 0,
         h_pos = 0\<rparr>"
  have a: "hlc_inv ?n (length [0..<?n]) ?st0"
    unfolding hlc_inv_def
    by (simp add: stack_ok_setup square_zeros symmetric_zeros closed_zeros unvisited_replicate)
  from assms have b: "hypercube_H_LC_loop ee draws N p ?n [0..<?n] ?st0 = (None, st)"
    by (simp add: hypercube_H_LC_enumerate_def Let_def intpower_2 reset_visited_replicate)
  from a assms(1) b show ?thesis by (rule hypercube_H_LC_loop_inv)
qed

section \<open>The copy of the largest cluster\<close>

lemma hypercube_H_LC_copy_row_nth:
  assumes "square n L" "i < n" "set ks \<subseteq> {..<n}"
  shows "fst (hypercube_H_LC_copy_row i ks (H, L)) = H
       \<and> square n (snd (hypercube_H_LC_copy_row i ks (H, L)))
       \<and> (\<forall>a<n. \<forall>b<n. snd (hypercube_H_LC_copy_row i ks (H, L)) ! a ! b
              = (if b = i \<and> a \<in> set ks then H ! i ! a else L ! a ! b))"
  using assms
proof (induction ks arbitrary: L)
  case Nil
  then show ?case by simp
next
  case (Cons k ks)
  let ?L1 = "array_set L k i (H ! i ! k)"
  from Cons.prems have k: "k < n" and sub: "set ks \<subseteq> {..<n}" by auto
  have sq: "square n ?L1" by (rule array_set_square [OF Cons.prems(1)])
  have step: "hypercube_H_LC_copy_row i (k # ks) (H, L) = hypercube_H_LC_copy_row i ks (H, ?L1)"
    by (simp add: Let_def array_set_id)
  note ih = Cons.IH [OF sq Cons.prems(2) sub]
  have "\<forall>a<n. \<forall>b<n. snd (hypercube_H_LC_copy_row i ks (H, ?L1)) ! a ! b
              = (if b = i \<and> a \<in> set (k # ks) then H ! i ! a else L ! a ! b)"
  proof (intro allI impI)
    fix a b
    assume ab: "a < n" "b < n"
    from ih ab have 1: "snd (hypercube_H_LC_copy_row i ks (H, ?L1)) ! a ! b
        = (if b = i \<and> a \<in> set ks then H ! i ! a else ?L1 ! a ! b)" by blast
    have 2: "?L1 ! a ! b = (if a = k \<and> b = i then H ! i ! k else L ! a ! b)"
      by (rule array_set_nth [OF Cons.prems(1) k Cons.prems(2) ab])
    show "snd (hypercube_H_LC_copy_row i ks (H, ?L1)) ! a ! b
              = (if b = i \<and> a \<in> set (k # ks) then H ! i ! a else L ! a ! b)"
      unfolding 1 2 by auto
  qed
  with ih show ?case unfolding step by blast
qed

lemma hypercube_H_LC_copy_nth:
  assumes "square n L" "set is \<subseteq> {..<n}"
  shows "fst (hypercube_H_LC_copy labels lci n is (H, L)) = H
       \<and> square n (snd (hypercube_H_LC_copy labels lci n is (H, L)))
       \<and> (\<forall>a<n. \<forall>b<n. snd (hypercube_H_LC_copy labels lci n is (H, L)) ! a ! b
              = (if b \<in> set is \<and> labels ! b = lci then H ! b ! a else L ! a ! b))"
  using assms
proof (induction "is" arbitrary: L)
  case Nil
  then show ?case by simp
next
  case (Cons i "is")
  from Cons.prems have i: "i < n" and sub: "set is \<subseteq> {..<n}" by auto
  show ?case
  proof (cases "labels ! i = lci")
    case False
    have step: "hypercube_H_LC_copy labels lci n (i # is) (H, L)
        = hypercube_H_LC_copy labels lci n is (H, L)" using False by simp
    from Cons.IH [OF Cons.prems(1) sub] False show ?thesis unfolding step by auto
  next
    case True
    let ?L1 = "snd (hypercube_H_LC_copy_row i [0..<n] (H, L))"
    have s: "set [0..<n] \<subseteq> {..<n}" by auto
    note r = hypercube_H_LC_copy_row_nth [OF Cons.prems(1) i s, of H]
    from r have r1: "hypercube_H_LC_copy_row i [0..<n] (H, L) = (H, ?L1)"
      by (metis prod.collapse)
    have step: "hypercube_H_LC_copy labels lci n (i # is) (H, L)
        = hypercube_H_LC_copy labels lci n is (H, ?L1)" using True r1 by simp
    from r have sq: "square n ?L1" by blast
    note ih = Cons.IH [OF sq sub]
    have "\<forall>a<n. \<forall>b<n. snd (hypercube_H_LC_copy labels lci n is (H, ?L1)) ! a ! b
              = (if b \<in> set (i # is) \<and> labels ! b = lci then H ! b ! a else L ! a ! b)"
    proof (intro allI impI)
      fix a b
      assume ab: "a < n" "b < n"
      from ih ab have 1: "snd (hypercube_H_LC_copy labels lci n is (H, ?L1)) ! a ! b
          = (if b \<in> set is \<and> labels ! b = lci then H ! b ! a else ?L1 ! a ! b)" by blast
      from r ab have 2: "?L1 ! a ! b = (if b = i \<and> a \<in> set [0..<n] then H ! i ! a else L ! a ! b)"
        by blast
      show "snd (hypercube_H_LC_copy labels lci n is (H, ?L1)) ! a ! b
              = (if b \<in> set (i # is) \<and> labels ! b = lci then H ! b ! a else L ! a ! b)"
        unfolding 1 2 using ab True by auto
    qed
    with ih show ?thesis unfolding step by blast
  qed
qed

lemma zeros_nth: "a < n \<Longrightarrow> b < n \<Longrightarrow> zeros n ! a ! b = 0"
  by (simp add: zeros_def)

text \<open>
  The copy holds, at row \<open>a\<close> and column \<open>b\<close>, the entry \<open>[b][a]\<close> of the full matrix
  when \<open>b\<close> carries the label of the largest cluster, and 0 otherwise.
\<close>

lemma hypercube_H_LC_copy_out:
  assumes "a < n" "b < n"
  shows "snd (hypercube_H_LC_copy labels lci n [0..<n] (H, zeros n)) ! a ! b
       = (if labels ! b = lci then H ! b ! a else 0)"
proof -
  have s: "set [0..<n] \<subseteq> {..<n}" by auto
  from hypercube_H_LC_copy_nth [OF square_zeros s, of labels lci H] assms
  have "snd (hypercube_H_LC_copy labels lci n [0..<n] (H, zeros n)) ! a ! b
       = (if b \<in> set [0..<n] \<and> labels ! b = lci then H ! b ! a else zeros n ! a ! b)"
    by blast
  with assms show ?thesis by (simp add: zeros_nth)
qed

lemma hypercube_H_LC_copy_square:
  "square n (snd (hypercube_H_LC_copy labels lci n [0..<n] (H, zeros n)))"
proof -
  have s: "set [0..<n] \<subseteq> {..<n}" by auto
  from hypercube_H_LC_copy_nth [OF square_zeros s, of labels lci H] show ?thesis by blast
qed

lemma closed_same_label:
  assumes "closed n ci vis l [] M" "a < n" "b < n" "M ! a ! b \<noteq> 0"
  shows "vis ! a \<and> vis ! b \<and> l ! a = l ! b"
proof -
  note h = assms(1) [unfolded closed_def, rule_format, OF assms(2) assms(3) assms(4)]
  from h have v: "vis ! a" "vis ! b" by simp_all
  from h have "(if vis ! a then l ! a else ci) = (if vis ! b then l ! b else ci)" by (elim conjE)
  then have "l ! a = l ! b" unfolding if_P [OF v(1)] if_P [OF v(2)] .
  with v show ?thesis by simp
qed

lemma hypercube_H_LC_copy_symmetric:
  assumes sy: "symmetric n H" and cl: "closed n ci vis labels [] H"
  shows "symmetric n (snd (hypercube_H_LC_copy labels lci n [0..<n] (H, zeros n)))"
  unfolding symmetric_def
proof (intro allI impI)
  fix a b
  assume ab: "a < n" "b < n"
  let ?out = "snd (hypercube_H_LC_copy labels lci n [0..<n] (H, zeros n))"
  have 1: "?out ! a ! b = (if labels ! b = lci then H ! b ! a else 0)"
    by (rule hypercube_H_LC_copy_out [OF ab])
  have 2: "?out ! b ! a = (if labels ! a = lci then H ! a ! b else 0)"
    by (rule hypercube_H_LC_copy_out [OF ab(2) ab(1)])
  from sy ab have e: "H ! a ! b = H ! b ! a" by (simp add: symmetric_def)
  show "?out ! a ! b = ?out ! b ! a"
  proof (cases "H ! a ! b = 0")
    case True
    with e show ?thesis unfolding 1 2 by simp
  next
    case False
    from closed_same_label [OF cl ab False] have "labels ! a = labels ! b" by simp
    with e show ?thesis unfolding 1 2 by simp
  qed
qed

lemma hypercube_H_LC_run_symmetric:
  assumes "hypercube_H_LC_run ee draws N p = Inr (M, sz)"
  shows "square (2 ^ N) M \<and> symmetric (2 ^ N) M"
proof -
  let ?n = "2 ^ N :: nat"
  from assms have c: "check_args N 1 p"
    by (auto simp: hypercube_H_LC_run_def split: if_splits)
  then have N: "N < 64" by (simp add: check_args_def)
  obtain r st where e: "hypercube_H_LC_enumerate ee draws N p = (r, st)"
    by (cases "hypercube_H_LC_enumerate ee draws N p")
  with assms c have r: "r = None"
    by (cases r) (simp_all add: hypercube_H_LC_run_def)
  with assms c e have M: "M = snd (hypercube_H_LC_copy (h_labels st) (h_largest_cluster_index st)
        ?n [0..<?n] (h_array st, zeros ?n))"
    by (simp add: hypercube_H_LC_run_def Let_def intpower_2 [OF N])
  from hypercube_H_LC_enumerate_inv [OF N e [unfolded r]]
  have "symmetric ?n (h_array st)"
    "closed ?n 0 (h_visited st) (h_labels st) [] (h_array st)"
    by (simp_all add: hlc_inv_def)
  from hypercube_H_LC_copy_symmetric [OF this] hypercube_H_LC_copy_square
  show ?thesis unfolding M by blast
qed

text \<open>
  Claim C3. Every matrix that a driver hands over is a square matrix of the order
  \<open>2 ^ N\<close> of the graph and is symmetric: the matrix of \<open>hypercube_H\<close>, the matrix of
  \<open>hypercube_H_SC\<close>, the copy of the largest cluster that \<open>hypercube_H_LC\<close> returns,
  and the full matrix from which that copy is taken, for every \<open>N\<close>, \<open>p\<close> and
  sequence of variates.
\<close>

theorem adjacency_matrices_symmetric:
  "(hypercube_H draws N p = Inr M \<longrightarrow> square (2 ^ N) M \<and> symmetric (2 ^ N) M)
   \<and> (hypercube_H_SC draws N p = Inr (M, sz) \<longrightarrow> square (2 ^ N) M \<and> symmetric (2 ^ N) M)
   \<and> (hypercube_H_LC draws N p = Inr (M, sz) \<longrightarrow> square (2 ^ N) M \<and> symmetric (2 ^ N) M)
   \<and> (N < 64 \<and> hypercube_H_LC_enumerate True draws N p = (None, st) \<longrightarrow>
        square (2 ^ N) (h_array st) \<and> symmetric (2 ^ N) (h_array st))"
proof (intro conjI impI)
  assume "hypercube_H draws N p = Inr M"
  from hypercube_H_symmetric [OF this]
  show "square (2 ^ N) M" "symmetric (2 ^ N) M" by simp_all
next
  assume "hypercube_H_SC draws N p = Inr (M, sz)"
  from hypercube_H_SC_symmetric [OF this]
  show "square (2 ^ N) M" "symmetric (2 ^ N) M" by simp_all
next
  assume "hypercube_H_LC draws N p = Inr (M, sz)"
  then have "hypercube_H_LC_run True draws N p = Inr (M, sz)" by (simp add: hypercube_H_LC_def)
  from hypercube_H_LC_run_symmetric [OF this]
  show "square (2 ^ N) M" "symmetric (2 ^ N) M" by simp_all
next
  assume a: "N < 64 \<and> hypercube_H_LC_enumerate True draws N p = (None, st)"
  then have "hlc_inv (2 ^ N) 0 st" by (auto intro: hypercube_H_LC_enumerate_inv)
  then show "square (2 ^ N) (h_array st)" "symmetric (2 ^ N) (h_array st)"
    by (simp_all add: hlc_inv_def)
qed

theorem adjacency_matrices_symmetric_witness:
  "hypercube_H (\<lambda>k. if even k then 0 else 3 / 4) 2 (1 / 2)
     = Inr [[0, 1, 0, 0], [1, 0, 0, 0], [0, 0, 0, 1], [0, 0, 1, 0]]
   \<and> symmetric (2 ^ 2) [[0, 1, 0, 0], [1, 0, 0, 0], [0, 0, 0, 1], [0, 0, 1, 0]]
   \<and> hypercube_H_SC (\<lambda>k. if even k then 0 else 3 / 4) 2 (1 / 2)
     = Inr ([[0, 1, 0, 0], [1, 0, 0, 1], [0, 0, 0, 0], [0, 1, 0, 0]], 3)
   \<and> symmetric (2 ^ 2) [[0, 1, 0, 0], [1, 0, 0, 1], [0, 0, 0, 0], [0, 1, 0, 0]]
   \<and> hypercube_H_LC (\<lambda>k. if 2 \<le> k then 0 else 3 / 4) 2 (1 / 2)
     = Inr ([[0, 0, 0, 0], [0, 0, 0, 1], [0, 0, 0, 1], [0, 1, 1, 0]], 3)
   \<and> symmetric (2 ^ 2) [[0, 0, 0, 0], [0, 0, 0, 1], [0, 0, 0, 1], [0, 1, 1, 0]]"
proof -
  have 1: "hypercube_H (\<lambda>k. if even k then 0 else 3 / 4) 2 (1 / 2)
     = Inr [[0, 1, 0, 0], [1, 0, 0, 0], [0, 0, 0, 1], [0, 0, 1, 0]]"
    by code_simp
  have 2: "hypercube_H_SC (\<lambda>k. if even k then 0 else 3 / 4) 2 (1 / 2)
     = Inr ([[0, 1, 0, 0], [1, 0, 0, 1], [0, 0, 0, 0], [0, 1, 0, 0]], 3)"
    by code_simp
  have 3: "hypercube_H_LC (\<lambda>k. if 2 \<le> k then 0 else 3 / 4) 2 (1 / 2)
     = Inr ([[0, 0, 0, 0], [0, 0, 0, 1], [0, 0, 0, 1], [0, 1, 1, 0]], 3)"
    by code_simp
  note A = adjacency_matrices_symmetric [THEN conjunct1, THEN mp, OF 1, THEN conjunct2]
  note B = adjacency_matrices_symmetric [THEN conjunct2, THEN conjunct1, THEN mp, OF 2, THEN conjunct2]
  note C = adjacency_matrices_symmetric [THEN conjunct2, THEN conjunct2, THEN conjunct1, THEN mp,
      OF 3, THEN conjunct2]
  from 1 A 2 B 3 C show ?thesis by (intro conjI)
qed

section \<open>Labels are written at visited sites only\<close>

definition label_frame :: "dijkstra_state \<Rightarrow> dijkstra_state \<Rightarrow> bool" where
  "label_frame st0 st =
     (length (j_visited st) = length (j_visited st0)
      \<and> (\<forall>k. j_visited st0 ! k \<longrightarrow> j_visited st ! k)
      \<and> (j_labels st0 = None \<longrightarrow> j_labels st = None)
      \<and> (\<forall>l0. j_labels st0 = Some l0 \<longrightarrow>
            (\<exists>l. j_labels st = Some l \<and> length l = length l0
               \<and> (\<forall>k. \<not> j_visited st ! k \<longrightarrow> l ! k = l0 ! k))))"

lemma label_frame_refl: "label_frame st st"
  by (simp add: label_frame_def)

lemma label_frame_cong:
  "j_visited st' = j_visited st \<Longrightarrow> j_labels st' = j_labels st \<Longrightarrow>
   label_frame st0 st' = label_frame st0 st"
  by (simp add: label_frame_def)

lemma dijkstra_neighbour_keeps:
  "dijkstra_neighbour draws p u i st = (r, st') \<Longrightarrow>
   j_visited st' = j_visited st \<and> j_labels st' = j_labels st
   \<and> j_number_visited st' = j_number_visited st"
  by (auto simp: dijkstra_neighbour_def Let_def split: if_splits prod.splits)

lemma dijkstra_for_keeps:
  "case dijkstra_for draws p u is st of (r, st') \<Rightarrow>
     j_visited st' = j_visited st \<and> j_labels st' = j_labels st
     \<and> j_number_visited st' = j_number_visited st"
proof (rule dijkstra_for_rule [where P = "\<lambda>s. j_visited s = j_visited st \<and> j_labels s = j_labels st
     \<and> j_number_visited s = j_number_visited st"], goal_cases)
  case 1
  show ?case by simp
next
  case (2 i s1 s2)
  from dijkstra_neighbour_keeps [OF 2(3)] 2(1) show ?case by simp
next
  case (3 i s1 e s2)
  from dijkstra_neighbour_keeps [OF 3(3)] 3(1) show ?case by simp
next
  case (4 s1)
  then show ?case by simp
qed

lemma label_frame_visit:
  assumes f: "label_frame st0 st" and u: "u < length (j_visited st)"
  shows "label_frame st0
           (st\<lparr>j_visited := (j_visited st)[u := True],
               j_labels := map_option (\<lambda>l. l[u := ci]) (j_labels st)\<rparr>)"
proof -
  have v: "(j_visited st)[u := True] ! k = (if k = u then True else j_visited st ! k)" for k
    using u by (cases "k = u") simp_all
  show ?thesis
  proof (cases "j_labels st0")
    case None
    with f show ?thesis by (auto simp: label_frame_def v)
  next
    case (Some l0)
    with f obtain l where l: "j_labels st = Some l" "length l = length l0"
      "\<forall>k. \<not> j_visited st ! k \<longrightarrow> l ! k = l0 ! k"
      by (auto simp: label_frame_def)
    have "\<forall>k. \<not> (j_visited st)[u := True] ! k \<longrightarrow> l[u := ci] ! k = l0 ! k"
    proof (intro allI impI)
      fix k
      assume "\<not> (j_visited st)[u := True] ! k"
      with v [of k] have k: "k \<noteq> u" "\<not> j_visited st ! k" by (auto split: if_splits)
      with l(3) show "l[u := ci] ! k = l0 ! k" by simp
    qed
    with f Some l show ?thesis by (simp add: label_frame_def v)
  qed
qed

lemma dijkstra_body_label_frame:
  assumes f: "label_frame st0 st" and b: "dijkstra_body draws p N ci st = (r, st')"
  shows "label_frame st0 st'"
proof -
  obtain u q1 e1 where d: "dequeue (j_queue st) (j_err st) = (u, q1, e1)"
    by (cases "dequeue (j_queue st) (j_err st)")
  let ?st1 = "st\<lparr>j_queue := q1, j_err := e1\<rparr>"
  let ?st2 = "?st1\<lparr>j_number_visited := ul_add (j_number_visited ?st1) 1\<rparr>"
  let ?st3 = "?st2\<lparr>j_visited := (j_visited ?st2)[u := True],
                   j_labels := map_option (\<lambda>l. l[u := ci]) (j_labels ?st2)\<rparr>"
  have f2: "label_frame st0 ?st2" using f by (simp add: label_frame_def)
  show ?thesis
  proof (cases "e1 \<noteq> 0 \<or> length (j_visited st) \<le> u")
    case True
    with b d have "j_visited st' = j_visited st \<and> j_labels st' = j_labels st"
      by (auto simp: dijkstra_body_def Let_def split: if_splits)
    with f show ?thesis by (simp add: label_frame_def)
  next
    case False
    then have u: "u < length (j_visited ?st2)" by simp
    from False b d have r: "dijkstra_for draws p u [0..<N] ?st3 = (r, st')"
      by (simp add: dijkstra_body_def Let_def)
    from dijkstra_for_keeps [of ?st3 draws p u "[0..<N]"] r
    have k: "j_visited st' = j_visited ?st3" "j_labels st' = j_labels ?st3" by simp_all
    from label_frame_visit [OF f2 u, of ci] have "label_frame st0 ?st3" .
    with k show ?thesis by (simp add: label_frame_def)
  qed
qed

lemma dijkstra_label_frame:
  "label_frame
     \<lparr>j_queue = q0, j_visited = visited, j_distances = distances,
      j_number_visited = nv, j_labels = labels, j_err = e0, j_pos = pos\<rparr>
     (snd (dijkstra draws q N p start_site visited distances nv ci labels pos))"
proof -
  obtain q1 e1 where e: "enqueue q start_site 0 = (q1, e1)" by (cases "enqueue q start_site 0")
  let ?st0 = "\<lparr>j_queue = q0, j_visited = visited, j_distances = distances,
      j_number_visited = nv, j_labels = labels, j_err = e0, j_pos = pos\<rparr>"
  let ?st1 = "\<lparr>j_queue = q1, j_visited = visited, j_distances = distances,
      j_number_visited = nv, j_labels = labels, j_err = e1, j_pos = pos\<rparr>"
  have "case dijkstra_while draws p N ci ?st1 of (r, st') \<Rightarrow> label_frame ?st0 st'"
  proof (rule dijkstra_while_rule [where P = "label_frame ?st0"], goal_cases)
    case 1
    show ?case by (simp add: label_frame_def)
  next
    case (2 s1 s2)
    from dijkstra_body_label_frame [OF 2(1) 2(3)] show ?case .
  next
    case (3 s1 e s2)
    from dijkstra_body_label_frame [OF 3(1) 3(3)] show ?case by simp
  next
    case (4 s1)
    then show ?case by simp
  qed
  with e show ?thesis by (simp add: dijkstra_def split: prod.splits)
qed
section \<open>The enumeration loop of \<open>hypercube_dijkstra_LC\<close>\<close>

text \<open>
  \<open>klc_next st j\<close> is the state of the enumeration after the statements that follow
  a call of \<open>dijkstra\<close> which has returned in the state \<open>j\<close>.
\<close>

definition klc_next :: "dlc_state \<Rightarrow> dijkstra_state \<Rightarrow> dlc_state" where
  "klc_next st j =
     (let cluster_size = j_number_visited j;
          st1 = st\<lparr>k_queue := j_queue j, k_visited := j_visited j,
                   k_distances := j_distances j,
                   k_labels := (case j_labels j of None \<Rightarrow> k_labels st | Some l \<Rightarrow> l),
                   k_pos := j_pos j,
                   k_total_size := ul_add (k_total_size st) cluster_size\<rparr>;
          st2 = (if k_largest_cluster_size st1 < cluster_size
                 then st1\<lparr>k_largest_cluster_size := cluster_size,
                          k_largest_cluster_index := k_cluster_index st1\<rparr>
                 else st1)
      in st2\<lparr>k_cluster_index := ul_add (k_cluster_index st2) 1\<rparr>)"

lemma hypercube_dijkstra_LC_loop_fault:
  assumes "\<not> k_visited st ! site"
    and "dijkstra draws (k_queue st) N p site (k_visited st) ((k_distances st)[site := 0]) 0
           (k_cluster_index st) (Some (k_labels st)) (k_pos st) = (Some e, j)"
  shows "hypercube_dijkstra_LC_loop ee draws N p NH (site # sites) st = (Some (after_fault e), st)"
  using assms by simp

lemma hypercube_dijkstra_LC_loop_grown:
  assumes "\<not> k_visited st ! site"
    and "dijkstra draws (k_queue st) N p site (k_visited st) ((k_distances st)[site := 0]) 0
           (k_cluster_index st) (Some (k_labels st)) (k_pos st) = (None, j)"
  shows "hypercube_dijkstra_LC_loop ee draws N p NH (site # sites) st
       = (if ee \<and> ul_sub NH (k_total_size (klc_next st j)) \<le> k_largest_cluster_size (klc_next st j)
          then (None, klc_next st j)
          else hypercube_dijkstra_LC_loop ee draws N p NH sites (klc_next st j))"
  using assms by (simp add: klc_next_def Let_def)

lemma klc_next_fields:
  assumes "j_labels j = Some l"
  shows "k_queue (klc_next st j) = j_queue j"
    and "k_visited (klc_next st j) = j_visited j"
    and "k_distances (klc_next st j) = j_distances j"
    and "k_labels (klc_next st j) = l"
    and "k_total_size (klc_next st j) = ul_add (k_total_size st) (j_number_visited j)"
    and "k_cluster_index (klc_next st j) = ul_add (k_cluster_index st) 1"
    and "k_largest_cluster_size (klc_next st j)
         = (if k_largest_cluster_size st < j_number_visited j then j_number_visited j
            else k_largest_cluster_size st)"
    and "k_largest_cluster_index (klc_next st j)
         = (if k_largest_cluster_size st < j_number_visited j then k_cluster_index st
            else k_largest_cluster_index st)"
  using assms by (simp_all add: klc_next_def Let_def)

text \<open>
  The part of the state that the labels depend on: a site that is not visited carries
  the sentinel, and the index of the largest cluster is an index that has been given
  out, below the order of the graph.
\<close>

definition klc_labels :: "nat \<Rightarrow> nat \<Rightarrow> dlc_state \<Rightarrow> bool" where
  "klc_labels n m st =
     (length (k_visited st) = n \<and> length (k_labels st) = n
      \<and> (\<forall>k<n. \<not> k_visited st ! k \<longrightarrow> k_labels st ! k = ULONG_MAX)
      \<and> k_cluster_index st + m \<le> n
      \<and> k_largest_cluster_index st \<le> k_cluster_index st)"

lemma klc_labels_mono: "klc_labels n m st \<Longrightarrow> m' \<le> m \<Longrightarrow> klc_labels n m' st"
  by (simp add: klc_labels_def)

lemma klc_labels_next:
  assumes inv: "klc_labels (2 ^ N) (Suc m) st" and N: "N < 64"
    and d: "dijkstra draws (k_queue st) N p site (k_visited st) ((k_distances st)[site := 0]) 0
           (k_cluster_index st) (Some (k_labels st)) (k_pos st) = (r, j)"
  shows "klc_labels (2 ^ N) m (klc_next st j)"
proof -
  let ?n = "2 ^ N :: nat"
  from inv have i: "length (k_visited st) = ?n" "length (k_labels st) = ?n"
    "\<forall>k<?n. \<not> k_visited st ! k \<longrightarrow> k_labels st ! k = ULONG_MAX"
    "k_cluster_index st + Suc m \<le> ?n"
    "k_largest_cluster_index st \<le> k_cluster_index st"
    by (simp_all add: klc_labels_def)
  from dijkstra_label_frame [where draws = draws and q = "k_queue st" and N = N and p = p
      and start_site = site and visited = "k_visited st"
      and distances = "(k_distances st)[site := 0]" and nv = 0 and ci = "k_cluster_index st"
      and labels = "Some (k_labels st)" and pos = "k_pos st" and ?q0.0 = "k_queue st" and ?e0.0 = 0] d
  obtain l where l: "j_labels j = Some l" "length l = ?n"
    "length (j_visited j) = ?n"
    "\<forall>k. \<not> j_visited j ! k \<longrightarrow> l ! k = k_labels st ! k"
    "\<forall>k. k_visited st ! k \<longrightarrow> j_visited j ! k"
    using i(1,2) by (auto simp: label_frame_def)
  note f = klc_next_fields [OF l(1), of st]
  have small: "?n < 18446744073709551615" by (rule order_small [OF N])
  from i(4) small have "ul_add (k_cluster_index st) 1 = k_cluster_index st + 1"
    by (intro ul_add_small) simp
  then have ci: "ul_add (k_cluster_index st) (Suc 0) = Suc (k_cluster_index st)"
    "ul_add (k_cluster_index st) 1 = Suc (k_cluster_index st)" by simp_all
  have 1: "\<forall>k<?n. \<not> k_visited (klc_next st j) ! k \<longrightarrow> k_labels (klc_next st j) ! k = ULONG_MAX"
  proof (intro allI impI)
    fix k
    assume k: "k < ?n" "\<not> k_visited (klc_next st j) ! k"
    then have v: "\<not> j_visited j ! k" by (simp add: f)
    with l(5) have "\<not> k_visited st ! k" by blast
    with i(3) k(1) have "k_labels st ! k = ULONG_MAX" by simp
    with l(4) v show "k_labels (klc_next st j) ! k = ULONG_MAX" by (simp add: f)
  qed
  have 2: "k_cluster_index (klc_next st j) + m \<le> ?n" using i(4) by (simp add: f ci)
  have 3: "k_largest_cluster_index (klc_next st j) \<le> k_cluster_index (klc_next st j)"
    using i(5) by (simp add: f ci)
  from l(2,3) 1 2 3 show ?thesis unfolding klc_labels_def by (simp add: f)
qed

lemma hypercube_dijkstra_LC_loop_labels:
  assumes "klc_labels (2 ^ N) (length sites) st" "N < 64"
    and "hypercube_dijkstra_LC_loop ee draws N p NH sites st = (None, st')"
  shows "klc_labels (2 ^ N) 0 st'"
  using assms
proof (induction sites arbitrary: st)
  case Nil
  then show ?case by simp
next
  case (Cons site sites)
  from Cons.prems(1) have inv: "klc_labels (2 ^ N) (Suc (length sites)) st" by simp
  show ?case
  proof (cases "k_visited st ! site")
    case True
    from klc_labels_mono [OF inv, of "length sites"]
    have "klc_labels (2 ^ N) (length sites) st" by simp
    from Cons.IH [OF this Cons.prems(2)] Cons.prems(3) True show ?thesis by simp
  next
    case False
    obtain r j where d: "dijkstra draws (k_queue st) N p site (k_visited st)
           ((k_distances st)[site := 0]) 0
           (k_cluster_index st) (Some (k_labels st)) (k_pos st) = (r, j)"
      by (cases "dijkstra draws (k_queue st) N p site (k_visited st)
           ((k_distances st)[site := 0]) 0
           (k_cluster_index st) (Some (k_labels st)) (k_pos st)")
    show ?thesis
    proof (cases r)
      case (Some e)
      with d have "hypercube_dijkstra_LC_loop ee draws N p NH (site # sites) st
          = (Some (after_fault e), st)"
        using hypercube_dijkstra_LC_loop_fault [OF False] by simp
      with Cons.prems(3) show ?thesis by simp
    next
      case None
      with d have d': "dijkstra draws (k_queue st) N p site (k_visited st)
           ((k_distances st)[site := 0]) 0
           (k_cluster_index st) (Some (k_labels st)) (k_pos st) = (None, j)"
        by simp
      note n = klc_labels_next [OF inv Cons.prems(2) d']
      note e = hypercube_dijkstra_LC_loop_grown [OF False d', of ee NH sites]
      show ?thesis
      proof (cases "ee \<and> ul_sub NH (k_total_size (klc_next st j))
                      \<le> k_largest_cluster_size (klc_next st j)")
        case True
        with e Cons.prems(3) have "st' = klc_next st j" by simp
        with klc_labels_mono [OF n, of 0] show ?thesis by simp
      next
        case False
        with e Cons.prems(3)
        have "hypercube_dijkstra_LC_loop ee draws N p NH sites (klc_next st j) = (None, st')"
          by simp
        from Cons.IH [OF n Cons.prems(2) this] show ?thesis .
      qed
    qed
  qed
qed

lemma hypercube_dijkstra_LC_enumerate_labels:
  assumes "N < 64" "hypercube_dijkstra_LC_enumerate ee draws N p = (None, st)"
  shows "klc_labels (2 ^ N) 0 st"
proof -
  let ?n = "2 ^ N :: nat"
  let ?st0 = "\<lparr>k_queue = setup_queue ?n,
         k_visited = replicate ?n False,
         k_distances = replicate ?n ULONG_MAX,
         k_labels = replicate ?n ULONG_MAX,
         k_largest_cluster_index = 0,
         k_largest_cluster_size = 0,
         k_cluster_index = 0,
         k_total_size = 0,
         k_pos = 0\<rparr>"
  have a: "klc_labels ?n (length [0..<?n]) ?st0"
    unfolding klc_labels_def by simp
  from assms have b: "hypercube_dijkstra_LC_loop ee draws N p ?n [0..<?n] ?st0 = (None, st)"
    by (simp add: hypercube_dijkstra_LC_enumerate_def Let_def intpower_2 reset_visited_replicate)
  from a assms(1) b show ?thesis by (rule hypercube_dijkstra_LC_loop_labels)
qed

section \<open>Sites that no traversal has reached\<close>

lemma ULONG_MAX_pos: "ULONG_MAX \<noteq> 0"
  by (simp add: ULONG_MAX_def)

lemma order_below_sentinel:
  assumes "N < 64" "c \<le> 2 ^ N"
  shows "c \<noteq> ULONG_MAX"
  using order_small [OF assms(1)] assms(2) by (simp add: ULONG_MAX_def)

lemma hypercube_H_LC_unvisited:
  assumes N: "N < 64" and e: "hypercube_H_LC_enumerate ee draws N p = (None, st)"
    and i: "i < 2 ^ N" "\<not> h_visited st ! i"
  shows "h_labels st ! i = ULONG_MAX"
    and "h_labels st ! i \<noteq> h_largest_cluster_index st"
    and "\<forall>k<2 ^ N.
           snd (hypercube_H_LC_copy (h_labels st) (h_largest_cluster_index st) (2 ^ N) [0..<2 ^ N]
                  (h_array st, zeros (2 ^ N))) ! k ! i = 0
           \<and> snd (hypercube_H_LC_copy (h_labels st) (h_largest_cluster_index st) (2 ^ N) [0..<2 ^ N]
                  (h_array st, zeros (2 ^ N))) ! i ! k = 0"
proof -
  let ?n = "2 ^ N :: nat"
  let ?out = "snd (hypercube_H_LC_copy (h_labels st) (h_largest_cluster_index st) ?n [0..<?n]
                  (h_array st, zeros ?n))"
  from hypercube_H_LC_enumerate_inv [OF N e]
  have inv: "\<forall>k<?n. \<not> h_visited st ! k \<longrightarrow> h_labels st ! k = ULONG_MAX"
    "h_cluster_index st + 0 \<le> ?n"
    "h_largest_cluster_index st < h_cluster_index st
       \<or> (h_largest_cluster_index st = 0 \<and> h_largest_cluster_size st = 0)"
    "closed ?n 0 (h_visited st) (h_labels st) [] (h_array st)"
    by (simp_all add: hlc_inv_def)
  from inv(1) i show l: "h_labels st ! i = ULONG_MAX" by simp
  from inv(2,3) have "h_largest_cluster_index st \<le> ?n" by auto
  from order_below_sentinel [OF N this] l
  show d: "h_labels st ! i \<noteq> h_largest_cluster_index st" by simp
  show "\<forall>k<?n. ?out ! k ! i = 0 \<and> ?out ! i ! k = 0"
  proof (intro allI impI)
    fix k
    assume k: "k < ?n"
    have 1: "?out ! k ! i = (if h_labels st ! i = h_largest_cluster_index st
                             then h_array st ! i ! k else 0)"
      by (rule hypercube_H_LC_copy_out [OF k i(1)])
    have 2: "?out ! i ! k = (if h_labels st ! k = h_largest_cluster_index st
                             then h_array st ! k ! i else 0)"
      by (rule hypercube_H_LC_copy_out [OF i(1) k])
    have "h_array st ! k ! i = 0"
    proof (rule ccontr)
      assume "h_array st ! k ! i \<noteq> 0"
      from closed_same_label [OF inv(4) k i(1) this] i(2) show False by simp
    qed
    with d show "?out ! k ! i = 0 \<and> ?out ! i ! k = 0" unfolding 1 2 by simp
  qed
qed

lemma hypercube_dijkstra_LC_unvisited:
  assumes N: "N < 64" and e: "hypercube_dijkstra_LC_enumerate ee draws N p = (None, st)"
    and i: "i < 2 ^ N" "\<not> k_visited st ! i"
  shows "k_labels st ! i = ULONG_MAX"
    and "k_labels st ! i \<noteq> k_largest_cluster_index st"
proof -
  let ?n = "2 ^ N :: nat"
  from hypercube_dijkstra_LC_enumerate_labels [OF N e]
  have inv: "\<forall>k<?n. \<not> k_visited st ! k \<longrightarrow> k_labels st ! k = ULONG_MAX"
    "k_cluster_index st + 0 \<le> ?n"
    "k_largest_cluster_index st \<le> k_cluster_index st"
    by (simp_all add: klc_labels_def)
  from inv(1) i show l: "k_labels st ! i = ULONG_MAX" by simp
  from inv(2,3) have "k_largest_cluster_index st \<le> ?n" by simp
  from order_below_sentinel [OF N this] l
  show "k_labels st ! i \<noteq> k_largest_cluster_index st" by simp
qed

text \<open>
  Claim C9. The two largest-cluster drivers start with the sentinel \<open>ULONG_MAX\<close> in
  every label, and a traversal writes a label only at a site that it visits. So when
  the enumeration has ended, with or without the early exit, a site that no traversal
  has visited still carries the sentinel: its label is not 0, it is not the index of the
  largest cluster, the copy of the distances skips it, and its row and its column in the
  copy of the matrix are zero.
\<close>

theorem unvisited_sites_keep_sentinel:
  "(N < 64 \<and> hypercube_H_LC_enumerate ee draws N p = (None, st)
      \<and> i < 2 ^ N \<and> \<not> h_visited st ! i \<longrightarrow>
      h_labels st ! i = ULONG_MAX \<and> h_labels st ! i \<noteq> 0
      \<and> h_labels st ! i \<noteq> h_largest_cluster_index st
      \<and> (\<forall>k<2 ^ N.
           snd (hypercube_H_LC_copy (h_labels st) (h_largest_cluster_index st) (2 ^ N) [0..<2 ^ N]
                  (h_array st, zeros (2 ^ N))) ! k ! i = 0
           \<and> snd (hypercube_H_LC_copy (h_labels st) (h_largest_cluster_index st) (2 ^ N) [0..<2 ^ N]
                  (h_array st, zeros (2 ^ N))) ! i ! k = 0))
   \<and> (N < 64 \<and> hypercube_dijkstra_LC_enumerate ee draws N p = (None, st')
      \<and> i < 2 ^ N \<and> \<not> k_visited st' ! i \<longrightarrow>
      k_labels st' ! i = ULONG_MAX \<and> k_labels st' ! i \<noteq> 0
      \<and> k_labels st' ! i \<noteq> k_largest_cluster_index st'
      \<and> copy_distances (\<lambda>i. k_labels st' ! i = k_largest_cluster_index st') (k_distances st')
            (i # sites) acc
          = copy_distances (\<lambda>i. k_labels st' ! i = k_largest_cluster_index st') (k_distances st')
            sites acc)"
proof (intro conjI impI)
  assume a: "N < 64 \<and> hypercube_H_LC_enumerate ee draws N p = (None, st)
      \<and> i < 2 ^ N \<and> \<not> h_visited st ! i"
  then have a': "N < 64" "hypercube_H_LC_enumerate ee draws N p = (None, st)"
    "i < 2 ^ N" "\<not> h_visited st ! i" by simp_all
  note h = hypercube_H_LC_unvisited [OF a']
  from h(1) show "h_labels st ! i = ULONG_MAX" .
  from h(1) show "h_labels st ! i \<noteq> 0" by (simp add: ULONG_MAX_pos)
  from h(2) show "h_labels st ! i \<noteq> h_largest_cluster_index st" .
  from h(3) show "\<forall>k<2 ^ N.
           snd (hypercube_H_LC_copy (h_labels st) (h_largest_cluster_index st) (2 ^ N) [0..<2 ^ N]
                  (h_array st, zeros (2 ^ N))) ! k ! i = 0
           \<and> snd (hypercube_H_LC_copy (h_labels st) (h_largest_cluster_index st) (2 ^ N) [0..<2 ^ N]
                  (h_array st, zeros (2 ^ N))) ! i ! k = 0" .
next
  assume a: "N < 64 \<and> hypercube_dijkstra_LC_enumerate ee draws N p = (None, st')
      \<and> i < 2 ^ N \<and> \<not> k_visited st' ! i"
  then have a': "N < 64" "hypercube_dijkstra_LC_enumerate ee draws N p = (None, st')"
    "i < 2 ^ N" "\<not> k_visited st' ! i" by simp_all
  note h = hypercube_dijkstra_LC_unvisited [OF a']
  from h(1) show "k_labels st' ! i = ULONG_MAX" .
  from h(1) show "k_labels st' ! i \<noteq> 0" by (simp add: ULONG_MAX_pos)
  from h(2) show "k_labels st' ! i \<noteq> k_largest_cluster_index st'" .
  from h(2) show "copy_distances (\<lambda>i. k_labels st' ! i = k_largest_cluster_index st') (k_distances st')
            (i # sites) acc
          = copy_distances (\<lambda>i. k_labels st' ! i = k_largest_cluster_index st') (k_distances st')
            sites acc"
    by (cases acc) simp
qed

theorem unvisited_sites_keep_sentinel_witness:
  "fst (hypercube_H_LC_enumerate True (\<lambda>k. if k mod 3 = 0 then 0 else 3 / 4) 3 (1 / 2)) = None
   \<and> \<not> h_visited (snd (hypercube_H_LC_enumerate True (\<lambda>k. if k mod 3 = 0 then 0 else 3 / 4) 3 (1 / 2))) ! 2
   \<and> h_labels (snd (hypercube_H_LC_enumerate True (\<lambda>k. if k mod 3 = 0 then 0 else 3 / 4) 3 (1 / 2))) ! 2
       = ULONG_MAX
   \<and> h_labels (snd (hypercube_H_LC_enumerate True (\<lambda>k. if k mod 3 = 0 then 0 else 3 / 4) 3 (1 / 2))) ! 2
       \<noteq> h_largest_cluster_index
            (snd (hypercube_H_LC_enumerate True (\<lambda>k. if k mod 3 = 0 then 0 else 3 / 4) 3 (1 / 2)))
   \<and> fst (hypercube_dijkstra_LC_enumerate True (\<lambda>k. if k mod 3 = 0 then 0 else 3 / 4) 3 (1 / 2)) = None
   \<and> \<not> k_visited (snd (hypercube_dijkstra_LC_enumerate True (\<lambda>k. if k mod 3 = 0 then 0 else 3 / 4) 3 (1 / 2))) ! 2
   \<and> k_labels (snd (hypercube_dijkstra_LC_enumerate True (\<lambda>k. if k mod 3 = 0 then 0 else 3 / 4) 3 (1 / 2))) ! 2
       = ULONG_MAX
   \<and> k_labels (snd (hypercube_dijkstra_LC_enumerate True (\<lambda>k. if k mod 3 = 0 then 0 else 3 / 4) 3 (1 / 2))) ! 2
       \<noteq> k_largest_cluster_index
            (snd (hypercube_dijkstra_LC_enumerate True (\<lambda>k. if k mod 3 = 0 then 0 else 3 / 4) 3 (1 / 2)))"
proof -
  let ?d = "\<lambda>k::nat. if k mod 3 = 0 then 0 else 3 / 4 :: real"
  let ?h = "hypercube_H_LC_enumerate True ?d 3 (1 / 2)"
  let ?k = "hypercube_dijkstra_LC_enumerate True ?d 3 (1 / 2)"
  have h1: "fst ?h = None" by code_simp
  have h2: "\<not> h_visited (snd ?h) ! 2" by code_simp
  have k1: "fst ?k = None" by code_simp
  have k2: "\<not> k_visited (snd ?k) ! 2" by code_simp
  from h1 have h3: "?h = (None, snd ?h)" by (metis prod.collapse)
  from k1 have k3: "?k = (None, snd ?k)" by (metis prod.collapse)
  have n: "(3::nat) < 64" "(2::nat) < 2 ^ 3" by simp_all
  have H: "(3::nat) < 64 \<and> ?h = (None, snd ?h) \<and> (2::nat) < 2 ^ 3 \<and> \<not> h_visited (snd ?h) ! 2"
    using n h3 h2 by (intro conjI)
  have K: "(3::nat) < 64 \<and> ?k = (None, snd ?k) \<and> (2::nat) < 2 ^ 3 \<and> \<not> k_visited (snd ?k) ! 2"
    using n k3 k2 by (intro conjI)
  note A = unvisited_sites_keep_sentinel [THEN conjunct1, THEN mp, OF H]
  note B = unvisited_sites_keep_sentinel [THEN conjunct2, THEN mp, OF K]
  from A have a: "h_labels (snd ?h) ! 2 = ULONG_MAX"
    "h_labels (snd ?h) ! 2 \<noteq> h_largest_cluster_index (snd ?h)" by blast+
  from B have b: "k_labels (snd ?k) ! 2 = ULONG_MAX"
    "k_labels (snd ?k) ! 2 \<noteq> k_largest_cluster_index (snd ?k)" by blast+
  from h1 h2 a k1 k2 b show ?thesis by (intro conjI)
qed

section \<open>The queue as a list\<close>

text \<open>
  The entries that wait in the circular buffer, first the one that \<open>dequeue\<close> returns
  next, and the well-formedness of the cursors.
\<close>

definition q_list :: "queue \<Rightarrow> nat list" where
  "q_list q = map (\<lambda>k. sites_q q ! ((readIdx q + k) mod length (sites_q q))) [0..<length_q q]"

definition queue_ok :: "queue \<Rightarrow> bool" where
  "queue_ok q =
     (readIdx q < length (sites_q q)
      \<and> writeIdx q = (readIdx q + length_q q) mod length (sites_q q)
      \<and> length_q q \<le> length (sites_q q))"

lemma q_list_length: "length (q_list q) = length_q q"
  by (simp add: q_list_def)

lemma q_list_empty: "length_q q = 0 \<Longrightarrow> q_list q = []"
  by (simp add: q_list_def)

lemma queue_ok_setup: "0 < n \<Longrightarrow> queue_ok (setup_queue n)"
  by (simp add: queue_ok_def setup_queue_def)

lemma q_list_setup: "q_list (setup_queue n) = []"
  by (simp add: q_list_def setup_queue_def)

lemma mod_shift_inj:
  fixes c :: nat
  assumes "(r + k) mod c = (r + l) mod c" "k < c" "l < c"
  shows "k = l"
proof -
  have aux: "a = b" if "(r + a) mod c = (r + b) mod c" "a \<le> b" "b < c" for a b
  proof -
    from that(1,2) have "c dvd (r + b) - (r + a)"
      by (metis add_le_cancel_left mod_eq_dvd_iff_nat)
    then have "c dvd b - a" by simp
    moreover from that(3) have "b - a < c" by simp
    ultimately have "b - a = 0" using nat_dvd_not_less by blast
    with that(2) show ?thesis by simp
  qed
  show ?thesis
  proof (cases "k \<le> l")
    case True
    from aux [OF assms(1) True assms(3)] show ?thesis .
  next
    case False
    then have "l \<le> k" by simp
    from aux [OF assms(1) [symmetric] this assms(2)] show ?thesis by simp
  qed
qed

lemma enqueue_list:
  assumes ok: "queue_ok q" and room: "length_q q < length (sites_q q)"
  shows "snd (enqueue q v e) = e"
    and "queue_ok (fst (enqueue q v e))"
    and "q_list (fst (enqueue q v e)) = q_list q @ [v]"
    and "length (sites_q (fst (enqueue q v e))) = length (sites_q q)"
proof -
  let ?c = "length (sites_q q)"
  let ?w = "(readIdx q + length_q q) mod ?c"
  let ?q' = "q\<lparr>sites_q := (sites_q q)[writeIdx q := v],
               writeIdx := (writeIdx q + 1) mod ?c,
               length_q := length_q q + 1\<rparr>"
  from room have e: "enqueue q v e = (?q', e)" by (simp add: enqueue_def)
  from ok have w: "writeIdx q = ?w" and r: "readIdx q < ?c" by (simp_all add: queue_ok_def)
  from room have c: "0 < ?c" by linarith
  then have wc: "?w < ?c" by simp
  show "snd (enqueue q v e) = e" unfolding e by simp
  show "length (sites_q (fst (enqueue q v e))) = ?c" unfolding e by simp
  have "(?w + 1) mod ?c = (readIdx q + (length_q q + 1)) mod ?c"
    by (metis add.assoc mod_add_left_eq)
  with r room show "queue_ok (fst (enqueue q v e))"
    unfolding e by (simp add: queue_ok_def w)
  show "q_list (fst (enqueue q v e)) = q_list q @ [v]"
  proof (rule nth_equalityI)
    show "length (q_list (fst (enqueue q v e))) = length (q_list q @ [v])"
      unfolding e by (simp add: q_list_length)
  next
    fix k
    assume "k < length (q_list (fst (enqueue q v e)))"
    then have k: "k < length_q q + 1" unfolding e by (simp add: q_list_length)
    have n: "q_list (fst (enqueue q v e)) ! k = (sites_q q)[?w := v] ! ((readIdx q + k) mod ?c)"
      using k unfolding e by (simp add: q_list_def w del: upt_Suc)
    show "q_list (fst (enqueue q v e)) ! k = (q_list q @ [v]) ! k"
    proof (cases "k = length_q q")
      case True
      with wc show ?thesis unfolding n by (simp add: nth_append q_list_length)
    next
      case False
      with k have kl: "k < length_q q" by simp
      have "(readIdx q + k) mod ?c \<noteq> ?w"
      proof
        assume "(readIdx q + k) mod ?c = ?w"
        from mod_shift_inj [OF this] kl room have "k = length_q q" by simp
        with False show False by simp
      qed
      then have "(sites_q q)[?w := v] ! ((readIdx q + k) mod ?c)
          = sites_q q ! ((readIdx q + k) mod ?c)" by simp
      with kl show ?thesis unfolding n by (simp add: nth_append q_list_length q_list_def)
    qed
  qed
qed

lemma enqueue_full:
  assumes "length (sites_q q) \<le> length_q q"
  shows "enqueue q v e = (q, 1)"
  using assms by (simp add: enqueue_def)

lemma dequeue_list:
  assumes ok: "queue_ok q" and ne: "0 < length_q q"
  shows "fst (dequeue q e) = hd (q_list q)"
    and "snd (snd (dequeue q e)) = e"
    and "queue_ok (fst (snd (dequeue q e)))"
    and "q_list (fst (snd (dequeue q e))) = tl (q_list q)"
    and "length (sites_q (fst (snd (dequeue q e)))) = length (sites_q q)"
proof -
  let ?c = "length (sites_q q)"
  let ?q' = "q\<lparr>readIdx := (readIdx q + 1) mod ?c, length_q := length_q q - 1\<rparr>"
  from ne have d: "dequeue q e = (sites_q q ! readIdx q, ?q', e)" by (simp add: dequeue_def)
  from ok have w: "writeIdx q = (readIdx q + length_q q) mod ?c" and r: "readIdx q < ?c"
    and l: "length_q q \<le> ?c" by (simp_all add: queue_ok_def)
  from r have c: "0 < ?c" by linarith
  from ne have "q_list q \<noteq> []" using q_list_length [of q] by auto
  then have "hd (q_list q) = q_list q ! 0" by (simp add: hd_conv_nth)
  also have "\<dots> = sites_q q ! readIdx q" using ne r by (simp add: q_list_def)
  finally show "fst (dequeue q e) = hd (q_list q)" unfolding d by simp
  show "snd (snd (dequeue q e)) = e" unfolding d by simp
  show "length (sites_q (fst (snd (dequeue q e)))) = ?c" unfolding d by simp
  have sh: "((readIdx q + 1) mod ?c + k) mod ?c = (readIdx q + (k + 1)) mod ?c" for k
    by (metis add.assoc add.commute mod_add_left_eq)
  have sh': "(Suc (readIdx q) mod ?c + k) mod ?c = Suc (readIdx q + k) mod ?c" for k
    using sh [of k] by simp
  have "((readIdx q + 1) mod ?c + (length_q q - 1)) mod ?c = (readIdx q + length_q q) mod ?c"
    using sh [of "length_q q - 1"] ne by simp
  with c l w show "queue_ok (fst (snd (dequeue q e)))"
    unfolding d by (simp add: queue_ok_def)
  show "q_list (fst (snd (dequeue q e))) = tl (q_list q)"
  proof (rule nth_equalityI)
    show "length (q_list (fst (snd (dequeue q e)))) = length (tl (q_list q))"
      unfolding d by (simp add: q_list_length)
  next
    fix k
    assume "k < length (q_list (fst (snd (dequeue q e))))"
    then have k: "k < length_q q - 1" unfolding d by (simp add: q_list_length)
    then have k1: "k + 1 < length_q q" by simp
    have "q_list (fst (snd (dequeue q e))) ! k = sites_q q ! ((readIdx q + (k + 1)) mod ?c)"
      using k unfolding d by (simp add: q_list_def sh')
    also have "\<dots> = q_list q ! (k + 1)" using k1 by (simp add: q_list_def)
    also have "\<dots> = tl (q_list q) ! k" using k1 by (simp add: nth_tl q_list_length)
    finally show "q_list (fst (snd (dequeue q e))) ! k = tl (q_list q) ! k" .
  qed
qed

end
